theory Spec2Isabelle
  imports Complex_Main "HOL-Library.Word" "HOL-Library.Sublist"
begin

section \<open>Numbers, vectors and intervals\<close>

text \<open>
  The renderer computes with C++ \<^verbatim>\<open>double\<close> and \<^verbatim>\<open>int\<close>. A \<^verbatim>\<open>double\<close> is modelled as a
  \<^typ>\<open>real\<close>: rounding, NaN, infinite results (division by zero among them) and casts
  of values outside the range of \<^verbatim>\<open>int\<close> are outside the model. The one non-finite
  \<^verbatim>\<open>double\<close> the sources name is the constant \<^verbatim>\<open>infinity\<close> of \<^verbatim>\<open>rtweekend.h\<close>, which only
  ever bounds an interval; it is the constructor \<open>PosInf\<close> of the type \<open>xdouble\<close>.
  An \<^verbatim>\<open>int\<close> is modelled as an \<^typ>\<open>int\<close>: signed overflow is undefined behaviour in C++,
  and a theorem that depends on the range of \<^verbatim>\<open>int\<close> states the bound it needs. Where the
  code mixes \<^verbatim>\<open>int\<close> and \<^verbatim>\<open>unsigned int\<close> (the row partition of \<^verbatim>\<open>camera::render\<close>),
  both are 32-bit words and the arithmetic wraps around as unsigned arithmetic does.
\<close>

datatype xdouble = NegInf | Fin real | PosInf

definition infinity :: xdouble where
  "infinity = PosInf"

text \<open>\<^verbatim>\<open>const double pi = 3.141519;\<close> (as written in \<^verbatim>\<open>rtweekend.h\<close>).\<close>

definition pi_rt :: real where
  "pi_rt = 3.141519"

definition degrees_to_radians :: "real \<Rightarrow> real" where
  "degrees_to_radians degrees = degrees * pi_rt / 180"

text \<open>The cast \<^verbatim>\<open>int(d)\<close> of a \<^verbatim>\<open>double\<close>: truncation towards zero.\<close>

definition int_of_double :: "real \<Rightarrow> int" where
  "int_of_double d = (if 0 \<le> d then \<lfloor>d\<rfloor> else \<lceil>d\<rceil>)"

text \<open>
  Modelled from the spec: \<^verbatim>\<open>vec3.h\<close> is not among the sources. The spec's vector primitives
  are ``3-component real arithmetic, dot, cross, normalize''. The accessors \<^verbatim>\<open>x()\<close>,
  \<^verbatim>\<open>y()\<close>, \<^verbatim>\<open>z()\<close> are the selectors \<open>vx\<close>, \<open>vy\<close>, \<open>vz\<close>; \<open>+\<close>, \<open>-\<close> and \<open>*\<close> on
  vectors are componentwise (\<open>*\<close> is the colour product \<^verbatim>\<open>attenuation * colour\<close>);
  \<open>smul t a\<close> is \<^verbatim>\<open>t * a\<close> and \<^verbatim>\<open>a * t\<close> for a scalar \<open>t\<close>, \<open>vdiv a t\<close> is \<^verbatim>\<open>a / t\<close>.
\<close>

datatype vec3 = Vec3 (vx: real) (vy: real) (vz: real)

type_synonym point3 = vec3
type_synonym color = vec3

instantiation vec3 :: "{zero, plus, minus, uminus, times}"
begin

definition zero_vec3 :: vec3 where
  "zero_vec3 = Vec3 0 0 0"

definition plus_vec3 :: "vec3 \<Rightarrow> vec3 \<Rightarrow> vec3" where
  "plus_vec3 a b = Vec3 (vx a + vx b) (vy a + vy b) (vz a + vz b)"

definition minus_vec3 :: "vec3 \<Rightarrow> vec3 \<Rightarrow> vec3" where
  "minus_vec3 a b = Vec3 (vx a - vx b) (vy a - vy b) (vz a - vz b)"

definition uminus_vec3 :: "vec3 \<Rightarrow> vec3" where
  "uminus_vec3 a = Vec3 (- vx a) (- vy a) (- vz a)"

definition times_vec3 :: "vec3 \<Rightarrow> vec3 \<Rightarrow> vec3" where
  "times_vec3 a b = Vec3 (vx a * vx b) (vy a * vy b) (vz a * vz b)"

instance ..

end

definition smul :: "real \<Rightarrow> vec3 \<Rightarrow> vec3" where
  "smul t a = Vec3 (t * vx a) (t * vy a) (t * vz a)"

definition vdiv :: "vec3 \<Rightarrow> real \<Rightarrow> vec3" where
  "vdiv a t = smul (1 / t) a"

definition dot :: "vec3 \<Rightarrow> vec3 \<Rightarrow> real" where
  "dot a b = vx a * vx b + vy a * vy b + vz a * vz b"

definition cross :: "vec3 \<Rightarrow> vec3 \<Rightarrow> vec3" where
  "cross a b = Vec3 (vy a * vz b - vz a * vy b)
                    (vz a * vx b - vx a * vz b)
                    (vx a * vy b - vy a * vx b)"

definition length_vec :: "vec3 \<Rightarrow> real" where
  "length_vec a = sqrt (dot a a)"

definition unit_vector :: "vec3 \<Rightarrow> vec3" where
  "unit_vector a = vdiv a (length_vec a)"

text \<open>
  Modelled from the spec: \<^verbatim>\<open>ray.h\<close> is not among the sources. A ray is ``an origin point
  and a direction vector; directions are not required to be unit length''.
\<close>

record ray =
  origin :: point3
  direction :: vec3

text \<open>
  Modelled from the spec: \<^verbatim>\<open>interval.h\<close> is not among the sources. An interval is its two
  bounds (\<^verbatim>\<open>min\<close> and \<^verbatim>\<open>max\<close>, here \<open>imin\<close> and \<open>imax\<close>); the bounds are reals in
  \<^verbatim>\<open>write_color\<close> and extended by \<^verbatim>\<open>infinity\<close> in \<^verbatim>\<open>ray_color\<close>. \<open>clamp\<close> is the spec's
  ``clamping to \<open>[0, 0.999]\<close>'': a value below the interval becomes its lower bound, a
  value above it its upper bound.
\<close>

record 'a interval =
  imin :: 'a
  imax :: 'a

definition clamp :: "real interval \<Rightarrow> real \<Rightarrow> real" where
  "clamp iv a = (if a < imin iv then imin iv else if imax iv < a then imax iv else a)"

section \<open>The output encoder (\<^verbatim>\<open>color.h\<close>)\<close>

text \<open>
  An output stream is the sequence of items written to it so far. The image stream
  \<^verbatim>\<open>std::cout\<close> receives the header \<^verbatim>\<open>P3\n<width> <height>\n255\n\<close> and one line
  \<^verbatim>\<open><r> <g> <b>\n\<close> per pixel; the diagnostic stream \<^verbatim>\<open>std::clog\<close> receives the
  progress lines and the final render-time line.
\<close>

datatype cout_item = Header int int | PixelLine int int int

datatype clog_item = ScanlinesRemaining int | Done

definition write_color :: "cout_item list \<Rightarrow> color \<Rightarrow> cout_item list" where
  "write_color out pixel_color =
     (let r = vx pixel_color;
          g = vy pixel_color;
          b = vz pixel_color;
          intensity = \<lparr>imin = 0.000, imax = 0.999\<rparr>;
          rbyte = int_of_double (256 * clamp intensity r);
          gbyte = int_of_double (256 * clamp intensity g);
          bbyte = int_of_double (256 * clamp intensity b)
      in out @ [PixelLine rbyte gbyte bbyte])"

section \<open>The row partition of \<^verbatim>\<open>camera::render\<close>\<close>

text \<open>
  \<^verbatim>\<open>int lines_per_thread = image_height / num_threads;\<close> divides an \<^verbatim>\<open>int\<close> by an
  \<^verbatim>\<open>unsigned int\<close>: the \<^verbatim>\<open>int\<close> is converted to \<^verbatim>\<open>unsigned int\<close>, the division is
  unsigned, and the quotient is converted back. The same holds for
  \<^verbatim>\<open>t * lines_per_thread\<close> and for both arms of the conditional that computes \<^verbatim>\<open>end\<close>.
  Both types are 32 bits wide here. \<open>thread_range image_height num_threads t\<close> is the pair
  \<^verbatim>\<open>(start, end)\<close> that iteration \<open>t\<close> of the loop passes to \<^verbatim>\<open>render_lines\<close>.
\<close>

definition thread_range :: "int \<Rightarrow> 32 word \<Rightarrow> 32 word \<Rightarrow> int \<times> int" where
  "thread_range image_height num_threads t =
     (let lines_per_thread = sint ((word_of_int image_height :: 32 word) div num_threads);
          start = sint (t * (word_of_int lines_per_thread :: 32 word));
          end_line = sint (if t = num_threads - 1 then (word_of_int image_height :: 32 word)
                           else (t + 1) * word_of_int lines_per_thread)
      in (start, end_line))"

text \<open>
  The rows worker \<open>t\<close> renders: the values \<open>j\<close> takes in
  \<^verbatim>\<open>for (int j = start_line; j < end_line; j++)\<close>.
\<close>

definition thread_rows :: "int \<Rightarrow> 32 word \<Rightarrow> 32 word \<Rightarrow> int set" where
  "thread_rows image_height num_threads t =
     (let (start, end_line) = thread_range image_height num_threads t
      in {start ..< end_line})"

section \<open>Scene, materials and random numbers\<close>

text \<open>
  Modelled from the spec: \<^verbatim>\<open>hittable.h\<close> and \<^verbatim>\<open>material.h\<close> are not among the sources.
  The scene capability is \<^verbatim>\<open>hit(ray, valid_parameter_interval) -> optional hit_record\<close>
  and the material capability is
  \<^verbatim>\<open>scatter(incoming_ray, hit_record) -> optional (attenuation_color, outgoing_ray)\<close>.
  The hit record (with the material it points to) is a value of an abstract type \<open>'h\<close>;
  \<^verbatim>\<open>world.hit(r, iv, rec)\<close> is \<open>hit world r iv\<close>, and \<^verbatim>\<open>rec.mat->scatter(r, rec, attenuation,
  scattered)\<close> is \<open>scatter world r rec\<close>. Both may draw random numbers, so both take and
  return the state \<open>'s\<close> of the calling thread's generator.
\<close>

record ('h, 's) hittable =
  hit :: "ray \<Rightarrow> xdouble interval \<Rightarrow> 's \<Rightarrow> 'h option \<times> 's"
  scatter :: "ray \<Rightarrow> 'h \<Rightarrow> 's \<Rightarrow> (color \<times> ray) option \<times> 's"

text \<open>
  \<^verbatim>\<open>random_double()\<close> of \<^verbatim>\<open>rtweekend.h\<close> draws from a \<^verbatim>\<open>thread_local\<close> generator of the
  standard library; \<^verbatim>\<open>random_in_unit_disk()\<close> belongs to \<^verbatim>\<open>vec3.h\<close>. Both are parameters
  of the model: functions from the generator's state to a value and the next state.
\<close>

record 's random_source =
  random_double :: "'s \<Rightarrow> real \<times> 's"
  random_in_unit_disk :: "'s \<Rightarrow> vec3 \<times> 's"

section \<open>Observable actions of a worker thread\<close>

text \<open>
  What a worker does that the rest of the program can observe:
  a call of the scene's hit test (with the ray and the interval passed), the atomic
  \<^verbatim>\<open>--scanlines_remaining\<close> of the loop iteration for row \<open>j\<close>, and the assignment
  \<^verbatim>\<open>image_buffer[k] = c\<close>. Every function below returns the list of its actions in
  program order.
\<close>

datatype event =
    HitQuery ray "xdouble interval"
  | Decrement int
  | Store int color

section \<open>The camera (\<^verbatim>\<open>camera.h\<close>)\<close>

record camera =
  aspect_ratio :: real
  image_width :: int
  samples_per_pixel :: int
  max_depth :: int
  vfov :: real
  lookfrom :: point3
  lookat :: point3
  vup :: vec3
  defocus_angle :: real
  focus_dist :: real
  image_height :: int
  pixel_samples_scale :: real
  center :: point3
  pixel00_loc :: point3
  pixel_delta_u :: vec3
  pixel_delta_v :: vec3
  w :: vec3
  u :: vec3
  v :: vec3
  defocus_disk_u :: vec3
  defocus_disk_v :: vec3

definition initialize :: "camera \<Rightarrow> camera" where
  "initialize cam =
     (let image_height0 = int_of_double (of_int (image_width cam) / aspect_ratio cam);
          image_height' = (if image_height0 < 1 then 1 else image_height0);
          pixel_samples_scale' = 1.0 / of_int (samples_per_pixel cam);
          center' = lookfrom cam;
          theta = degrees_to_radians (vfov cam);
          h = tan (theta / 2);
          viewport_height = 2.0 * h * focus_dist cam;
          viewport_width = viewport_height * (of_int (image_width cam) / of_int image_height');
          w' = unit_vector (lookfrom cam - lookat cam);
          u' = unit_vector (cross (vup cam) w');
          v' = cross w' u';
          viewport_u = smul viewport_width u';
          viewport_v = smul viewport_height (- v');
          pixel_delta_u' = vdiv viewport_u (of_int (image_width cam));
          pixel_delta_v' = vdiv viewport_v (of_int image_height');
          viewport_upper_left =
            center' - smul (focus_dist cam) w' - vdiv viewport_u 2 - vdiv viewport_v 2;
          pixel00_loc' = viewport_upper_left + smul 0.5 (pixel_delta_u' + pixel_delta_v');
          defocus_radius = focus_dist cam * tan (degrees_to_radians (defocus_angle cam / 2))
      in cam\<lparr>image_height := image_height',
              pixel_samples_scale := pixel_samples_scale',
              center := center',
              pixel00_loc := pixel00_loc',
              pixel_delta_u := pixel_delta_u',
              pixel_delta_v := pixel_delta_v',
              w := w', u := u', v := v',
              defocus_disk_u := smul defocus_radius u',
              defocus_disk_v := smul defocus_radius v'\<rparr>)"

text \<open>
  The two calls of \<^verbatim>\<open>random_double()\<close> in \<^verbatim>\<open>sample_square\<close> are arguments of one
  constructor call, so C++ leaves their order open; the model draws the first component
  first.
\<close>

definition sample_square :: "'s random_source \<Rightarrow> 's \<Rightarrow> vec3 \<times> 's" where
  "sample_square rnd s =
     (case random_double rnd s of (a, s1) \<Rightarrow>
      case random_double rnd s1 of (b, s2) \<Rightarrow>
        (Vec3 (a - 0.5) (b - 0.5) 0, s2))"

definition defocus_disk_sample :: "camera \<Rightarrow> 's random_source \<Rightarrow> 's \<Rightarrow> point3 \<times> 's" where
  "defocus_disk_sample cam rnd s =
     (case random_in_unit_disk rnd s of (p, s1) \<Rightarrow>
        (center cam + smul (vx p) (defocus_disk_u cam) + smul (vy p) (defocus_disk_v cam), s1))"

definition get_ray :: "camera \<Rightarrow> 's random_source \<Rightarrow> int \<Rightarrow> int \<Rightarrow> 's \<Rightarrow> ray \<times> 's" where
  "get_ray cam rnd i j s =
     (case sample_square rnd s of (offset, s1) \<Rightarrow>
        let pixel_sample = pixel00_loc cam
                           + smul (of_int i + vx offset) (pixel_delta_u cam)
                           + smul (of_int j + vy offset) (pixel_delta_v cam)
        in case (if defocus_angle cam \<le> 0 then (center cam, s1)
                 else defocus_disk_sample cam rnd s1) of (ray_origin, s2) \<Rightarrow>
             let ray_direction = pixel_sample - ray_origin
             in (\<lparr>origin = ray_origin, direction = ray_direction\<rparr>, s2))"

subsection \<open>The path integrator\<close>

text \<open>
  \<open>ray_color r depth world s\<close> returns the colour, the hit tests it made, and the
  generator's state afterwards. The recursion is the source's: one call with
  \<open>depth - 1\<close> when the material scatters.
\<close>

function ray_color ::
  "ray \<Rightarrow> int \<Rightarrow> ('h, 's) hittable \<Rightarrow> 's \<Rightarrow> (color \<times> event list) \<times> 's" where
  "ray_color r depth world s =
     (if depth \<le> 0 then ((Vec3 0 0 0, []), s)
      else
        case hit world r \<lparr>imin = Fin 0.001, imax = infinity\<rparr> s of
          (Some rec, s1) \<Rightarrow>
            (case scatter world r rec s1 of
               (Some (attenuation, scattered), s2) \<Rightarrow>
                 (case ray_color scattered (depth - 1) world s2 of
                    ((c, tr), s3) \<Rightarrow>
                      ((attenuation * c,
                        HitQuery r \<lparr>imin = Fin 0.001, imax = infinity\<rparr> # tr), s3))
             | (None, s2) \<Rightarrow>
                 ((Vec3 0 0 0, [HitQuery r \<lparr>imin = Fin 0.001, imax = infinity\<rparr>]), s2))
        | (None, s1) \<Rightarrow>
            (let unit_direction = unit_vector (direction r);
                 a = 0.5 * (vy unit_direction + 1.0)
             in ((smul (1.0 - a) (Vec3 1.0 1.0 1.0) + smul a (Vec3 0.5 0.7 1.0),
                  [HitQuery r \<lparr>imin = Fin 0.001, imax = infinity\<rparr>]), s1)))"
  by pat_completeness auto
termination
  by (relation "measure (\<lambda>(r, depth, world, s). nat depth)") auto

text \<open>
  The same recursion with no termination argument: a call that never returned would
  have the value \<open>None\<close>.
\<close>

partial_function (option) ray_color_rec ::
  "ray \<Rightarrow> int \<Rightarrow> ('h, 's) hittable \<Rightarrow> 's \<Rightarrow> ((color \<times> event list) \<times> 's) option" where
  "ray_color_rec r depth world s =
     (if depth \<le> 0 then Some ((Vec3 0 0 0, []), s)
      else
        case hit world r \<lparr>imin = Fin 0.001, imax = infinity\<rparr> s of
          (Some rec, s1) \<Rightarrow>
            (case scatter world r rec s1 of
               (Some (attenuation, scattered), s2) \<Rightarrow>
                 Option.bind (ray_color_rec scattered (depth - 1) world s2)
                   (\<lambda>((c, tr), s3).
                      Some ((attenuation * c,
                             HitQuery r \<lparr>imin = Fin 0.001, imax = infinity\<rparr> # tr), s3))
             | (None, s2) \<Rightarrow>
                 Some ((Vec3 0 0 0, [HitQuery r \<lparr>imin = Fin 0.001, imax = infinity\<rparr>]), s2))
        | (None, s1) \<Rightarrow>
            (let unit_direction = unit_vector (direction r);
                 a = 0.5 * (vy unit_direction + 1.0)
             in Some ((smul (1.0 - a) (Vec3 1.0 1.0 1.0) + smul a (Vec3 0.5 0.7 1.0),
                       [HitQuery r \<lparr>imin = Fin 0.001, imax = infinity\<rparr>]), s1)))"

subsection \<open>The worker: \<^verbatim>\<open>render_lines\<close>\<close>

text \<open>
  The three nested loops of the lambda \<^verbatim>\<open>render_lines\<close>, innermost first. Each function
  is its loop from the current value of the loop variable on.
  \<open>sample_loop cam rnd world i j sample pixel_color\<close> is
  \<^verbatim>\<open>for (; sample < samples_per_pixel; sample++) pixel_color += ray_color(get_ray(i, j), max_depth, world)\<close>.
\<close>

function sample_loop ::
  "camera \<Rightarrow> 's random_source \<Rightarrow> ('h, 's) hittable \<Rightarrow> int \<Rightarrow> int \<Rightarrow> int \<Rightarrow> color \<Rightarrow> 's
     \<Rightarrow> (color \<times> event list) \<times> 's" where
  "sample_loop cam rnd world i j sample pixel_color s =
     (if sample < samples_per_pixel cam then
        (case get_ray cam rnd i j s of (r, s1) \<Rightarrow>
         case ray_color r (max_depth cam) world s1 of ((c, tr), s2) \<Rightarrow>
         case sample_loop cam rnd world i j (sample + 1) (pixel_color + c) s2 of
           ((pixel_color', tr'), s3) \<Rightarrow> ((pixel_color', tr @ tr'), s3))
      else ((pixel_color, []), s))"
  by pat_completeness auto
termination
  by (relation "measure (\<lambda>(cam, rnd, world, i, j, sample, pixel_color, s).
                           nat (samples_per_pixel cam - sample))") auto

text \<open>
  \<open>column_loop cam rnd world j i\<close> is the loop over the columns of row \<open>j\<close>, from column
  \<open>i\<close> on: it samples the pixel and stores
  \<^verbatim>\<open>image_buffer[j * image_width + i] = pixel_samples_scale * pixel_color\<close>.
\<close>

function column_loop ::
  "camera \<Rightarrow> 's random_source \<Rightarrow> ('h, 's) hittable \<Rightarrow> int \<Rightarrow> int \<Rightarrow> 's \<Rightarrow> event list \<times> 's" where
  "column_loop cam rnd world j i s =
     (if i < image_width cam then
        (case sample_loop cam rnd world i j 0 (Vec3 0 0 0) s of ((pixel_color, tr), s1) \<Rightarrow>
         case column_loop cam rnd world j (i + 1) s1 of (tr', s2) \<Rightarrow>
           (tr @ Store (j * image_width cam + i) (smul (pixel_samples_scale cam) pixel_color)
               # tr', s2))
      else ([], s))"
  by pat_completeness auto
termination
  by (relation "measure (\<lambda>(cam, rnd, world, j, i, s). nat (image_width cam - i))") auto

text \<open>
  \<open>render_lines cam rnd world j end_line\<close> is the loop over the rows from \<open>j\<close> on; the
  lambda's call \<^verbatim>\<open>render_lines(start_line, end_line)\<close> starts it at \<open>j = start_line\<close>.
  Each iteration first decrements the shared counter, then renders the row.
\<close>

function render_lines ::
  "camera \<Rightarrow> 's random_source \<Rightarrow> ('h, 's) hittable \<Rightarrow> int \<Rightarrow> int \<Rightarrow> 's \<Rightarrow> event list \<times> 's" where
  "render_lines cam rnd world j end_line s =
     (if j < end_line then
        (case column_loop cam rnd world j 0 s of (tr, s1) \<Rightarrow>
         case render_lines cam rnd world (j + 1) end_line s1 of (tr', s2) \<Rightarrow>
           (Decrement j # tr @ tr', s2))
      else ([], s))"
  by pat_completeness auto
termination
  by (relation "measure (\<lambda>(cam, rnd, world, j, end_line, s). nat (end_line - j))") auto

subsection \<open>Shared state and \<^verbatim>\<open>render\<close>\<close>

text \<open>
  The state the workers share: the atomic counter, the pixel buffer, and the
  diagnostic stream. \<open>step\<close> is the effect of one action on it: the decrement reads the
  new value and prints the progress line when it is a multiple of ten; the store
  writes one element (an index outside the buffer is undefined behaviour in C++ and
  leaves the model's buffer unchanged).
\<close>

record shared =
  scanlines_remaining :: int
  image_buffer :: "color list"
  clog :: "clog_item list"

fun step :: "shared \<Rightarrow> event \<Rightarrow> shared" where
  "step st (Decrement j) =
     (let remaining = scanlines_remaining st - 1;
          st' = st\<lparr>scanlines_remaining := remaining\<rparr>
      in if remaining mod 10 = 0 \<or> remaining = 0
         then st'\<lparr>clog := clog st' @ [ScanlinesRemaining remaining]\<rparr>
         else st')"
| "step st (Store k c) =
     (if 0 \<le> k \<and> k < int (length (image_buffer st))
      then st\<lparr>image_buffer := (image_buffer st)[nat k := c]\<rparr>
      else st)"
| "step st (HitQuery r iv) = st"

text \<open>
  Threads run concurrently: a run of the workers is any interleaving of their action
  lists that keeps each worker's own order.
\<close>

fun interleavings :: "'a list list \<Rightarrow> 'a list set" where
  "interleavings [] = {[]}"
| "interleavings (xs # xss) = (\<Union>ys \<in> interleavings xss. shuffles xs ys)"

text \<open>
  \<open>worker_traces\<close> is the loop that creates the threads: thread \<open>t\<close> runs
  \<^verbatim>\<open>render_lines(start, end)\<close> on its own generator (\<open>seeds t\<close> is its initial state). Each
  action is paired with the number of the thread that performs it.
\<close>

definition worker_traces ::
  "camera \<Rightarrow> 's random_source \<Rightarrow> ('h, 's) hittable \<Rightarrow> 32 word \<Rightarrow> (nat \<Rightarrow> 's)
     \<Rightarrow> (nat \<times> event) list list" where
  "worker_traces cam rnd world num_threads seeds =
     map (\<lambda>t. case thread_range (image_height cam) num_threads (of_nat t) of
                 (start, end_line) \<Rightarrow>
                   map (Pair t) (fst (render_lines cam rnd world start end_line (seeds t))))
         [0 ..< unat num_threads]"

text \<open>
  What \<^verbatim>\<open>render\<close> does, in order: a write to \<^verbatim>\<open>std::cout\<close> or \<^verbatim>\<open>std::clog\<close> by the calling
  thread, an action of worker \<open>t\<close>, the end of the loop that joins every thread, and the
  exception of \<^verbatim>\<open>std::vector\<close>'s constructor when the requested size
  \<^verbatim>\<open>image_width * image_height\<close> is negative. The progress lines of the workers are not
  events of their own: \<open>step\<close> derives them from the decrements and collects them in the
  \<open>clog\<close> of the shared state.
\<close>

datatype render_event =
    Cout cout_item
  | Clog clog_item
  | Worker nat event
  | AllJoined
  | LengthError

text \<open>
  \<open>render cam rnd world hardware_concurrency seeds\<close> is the set of runs of
  \<^verbatim>\<open>camera::render\<close>. \<open>hardware_concurrency\<close> is the value
  \<^verbatim>\<open>std::thread::hardware_concurrency()\<close> returns. The buffer starts with
  \<^verbatim>\<open>image_width * image_height\<close> default-constructed colours. After the workers have run
  and been joined, the final loop writes the buffer's elements in order.
\<close>

definition num_threads :: "32 word \<Rightarrow> 32 word" where
  "num_threads hardware_concurrency =
     (if hardware_concurrency = 0 then 1 else hardware_concurrency)"

definition initial_shared :: "camera \<Rightarrow> shared" where
  "initial_shared cam =
     \<lparr>scanlines_remaining = image_height cam,
      image_buffer = replicate (nat (image_width cam * image_height cam)) (Vec3 0 0 0),
      clog = []\<rparr>"

definition render ::
  "camera \<Rightarrow> 's random_source \<Rightarrow> ('h, 's) hittable \<Rightarrow> 32 word \<Rightarrow> (nat \<Rightarrow> 's)
     \<Rightarrow> render_event list set" where
  "render cam0 rnd world hardware_concurrency seeds =
     (let cam = initialize cam0;
          header = Header (image_width cam) (image_height cam)
      in if image_width cam * image_height cam < 0 then {[Cout header, LengthError]}
         else
           (\<lambda>tr.
              let st = foldl step (initial_shared cam) (map snd tr)
              in [Cout header] @ map (\<lambda>(t, e). Worker t e) tr @ [AllJoined, Clog Done]
                 @ map Cout (foldl write_color [] (image_buffer st)))
           ` interleavings
               (worker_traces cam rnd world (num_threads hardware_concurrency) seeds))"

text \<open>
  Two projections of a list of actions, used to state what a run does to the counter
  and to the buffer: the rows of its decrements and the indices of its stores, each in
  the order in which they happen.
\<close>

fun dec_row :: "event \<Rightarrow> int option" where
  "dec_row (Decrement j) = Some j"
| "dec_row (Store k c) = None"
| "dec_row (HitQuery r iv) = None"

fun store_index :: "event \<Rightarrow> int option" where
  "store_index (Store k c) = Some k"
| "store_index (Decrement j) = None"
| "store_index (HitQuery r iv) = None"

definition dec_rows :: "event list \<Rightarrow> int list" where
  "dec_rows tr = List.map_filter dec_row tr"

definition store_indices :: "event list \<Rightarrow> int list" where
  "store_indices tr = List.map_filter store_index tr"

declare ray_color.simps [simp del]
declare sample_loop.simps [simp del]
declare column_loop.simps [simp del]
declare render_lines.simps [simp del]

section \<open>A small image for concrete runs\<close>

text \<open>
  A 2-by-1 image with one sample per pixel, and the 2-by-2 image of the same camera
  with aspect ratio 1; a scene in which every ray hits a surface
  that scatters it along the same ray with attenuation one half, and a scene with no
  geometry; a generator that always returns 0.5. The scene \<open>probe_world\<close> reports no hit
  when it is asked about the interval from 0.001 to \<^verbatim>\<open>infinity\<close>, and a hit when asked about
  any other interval.
\<close>

definition demo_camera :: "int \<Rightarrow> camera" where
  "demo_camera depth =
     \<lparr>aspect_ratio = 2, image_width = 2, samples_per_pixel = 1, max_depth = depth, vfov = 90,
      lookfrom = Vec3 0 0 0, lookat = Vec3 0 0 (- 1), vup = Vec3 0 1 0,
      defocus_angle = 0, focus_dist = 10,
      image_height = 0, pixel_samples_scale = 0, center = Vec3 0 0 0,
      pixel00_loc = Vec3 0 0 0, pixel_delta_u = Vec3 0 0 0, pixel_delta_v = Vec3 0 0 0,
      w = Vec3 0 0 0, u = Vec3 0 0 0, v = Vec3 0 0 0,
      defocus_disk_u = Vec3 0 0 0, defocus_disk_v = Vec3 0 0 0\<rparr>"

definition square_camera :: camera where
  "square_camera = (demo_camera 0)\<lparr>aspect_ratio := 1\<rparr>"

definition demo_random :: "nat random_source" where
  "demo_random = \<lparr>random_double = (\<lambda>s. (0.5, Suc s)),
                   random_in_unit_disk = (\<lambda>s. (Vec3 0 0 0, Suc s))\<rparr>"

definition demo_world :: "(unit, nat) hittable" where
  "demo_world = \<lparr>hit = (\<lambda>r iv s. (Some (), s)),
                  scatter = (\<lambda>r rec s. (Some (Vec3 0.5 0.5 0.5, r), s))\<rparr>"

definition empty_world :: "(unit, nat) hittable" where
  "empty_world = \<lparr>hit = (\<lambda>r iv s. (None, s)),
                   scatter = (\<lambda>r rec s. (None, s))\<rparr>"

definition probe_world :: "(unit, nat) hittable" where
  "probe_world =
     \<lparr>hit = (\<lambda>r iv s. if iv = \<lparr>imin = Fin 0.001, imax = PosInf\<rparr> then (None, s)
                         else (Some (), s)),
      scatter = (\<lambda>r rec s. (None, s))\<rparr>"

section \<open>The output encoder quantizes linear colour\<close>

lemma clamp_max_min: "lo \<le> hi \<Longrightarrow> clamp \<lparr>imin = lo, imax = hi\<rparr> a = max lo (min hi a)"
  by (simp add: clamp_def max_def min_def)

lemma channel_byte:
  "int_of_double (256 * clamp \<lparr>imin = 0.000, imax = 0.999\<rparr> a) = \<lfloor>256 * max 0 (min 0.999 a)\<rfloor>"
proof -
  have c: "clamp \<lparr>imin = 0.000, imax = 0.999\<rparr> a = max 0 (min 0.999 a)"
    using clamp_max_min [of 0 "0.999" a] by simp
  have "0 \<le> 256 * max 0 (min 0.999 a)" by simp
  then have "int_of_double (256 * max 0 (min 0.999 a)) = \<lfloor>256 * max 0 (min 0.999 a)\<rfloor>"
    unfolding int_of_double_def by (rule if_P)
  then show ?thesis by (simp only: c)
qed

lemma channel_byte_range:
  "0 \<le> \<lfloor>256 * max 0 (min 0.999 (a :: real))\<rfloor> \<and> \<lfloor>256 * max 0 (min 0.999 a)\<rfloor> \<le> (255 :: int)"
proof -
  have "0 \<le> 256 * max 0 (min 0.999 a)" by simp
  moreover have "256 * max 0 (min 0.999 a) < 256" by (simp add: max_def min_def)
  ultimately show ?thesis by (simp add: floor_le_iff)
qed

text \<open>
  C9. \<^verbatim>\<open>write_color\<close> appends one line to the stream. Each of its three numbers is
  computed from its own channel alone: the channel is clamped to \<open>[0, 0.999]\<close>,
  multiplied by 256 and truncated, with no gamma transform in between, so each number
  lies between 0 and 255. Channel value 1.0 gives 255, 0.0 gives 0 and -5.0 gives 0;
  the linear value 0.25 gives 64.
\<close>

theorem write_color_quantizes:
  "(\<exists>rbyte gbyte bbyte.
      write_color out pixel_color = out @ [PixelLine rbyte gbyte bbyte] \<and>
      rbyte = \<lfloor>256 * max 0 (min 0.999 (vx pixel_color))\<rfloor> \<and>
      gbyte = \<lfloor>256 * max 0 (min 0.999 (vy pixel_color))\<rfloor> \<and>
      bbyte = \<lfloor>256 * max 0 (min 0.999 (vz pixel_color))\<rfloor> \<and>
      0 \<le> rbyte \<and> rbyte \<le> 255 \<and> 0 \<le> gbyte \<and> gbyte \<le> 255 \<and> 0 \<le> bbyte \<and> bbyte \<le> 255) \<and>
   write_color out (Vec3 1.0 0.0 (- 5.0)) = out @ [PixelLine 255 0 0] \<and>
   write_color out (Vec3 0.25 0.25 0.25) = out @ [PixelLine 64 64 64]"
proof (intro conjI)
  show "\<exists>rbyte gbyte bbyte.
      write_color out pixel_color = out @ [PixelLine rbyte gbyte bbyte] \<and>
      rbyte = \<lfloor>256 * max 0 (min 0.999 (vx pixel_color))\<rfloor> \<and>
      gbyte = \<lfloor>256 * max 0 (min 0.999 (vy pixel_color))\<rfloor> \<and>
      bbyte = \<lfloor>256 * max 0 (min 0.999 (vz pixel_color))\<rfloor> \<and>
      0 \<le> rbyte \<and> rbyte \<le> 255 \<and> 0 \<le> gbyte \<and> gbyte \<le> 255 \<and> 0 \<le> bbyte \<and> bbyte \<le> 255"
    unfolding write_color_def Let_def channel_byte
    using channel_byte_range [of "vx pixel_color"] channel_byte_range [of "vy pixel_color"]
      channel_byte_range [of "vz pixel_color"]
    by blast
  show "write_color out (Vec3 1.0 0.0 (- 5.0)) = out @ [PixelLine 255 0 0]"
    unfolding write_color_def Let_def channel_byte by simp
  show "write_color out (Vec3 0.25 0.25 0.25) = out @ [PixelLine 64 64 64]"
    unfolding write_color_def Let_def channel_byte by simp
qed

theorem write_color_quantizes_witness:
  "write_color [Header 2 1] (Vec3 0.5 2 (- 1)) = [Header 2 1, PixelLine 128 255 0]"
  using write_color_quantizes [of "[Header 2 1]" "Vec3 0.5 2 (- 1)"]
  unfolding write_color_def Let_def channel_byte by simp

section \<open>The row partition covers every row once\<close>

lemma sint_eq_uint_small:
  fixes a :: "32 word"
  assumes "uint a < 2 ^ 31"
  shows "sint a = uint a"
proof -
  have "signed_take_bit (31::nat) (uint a) = uint a"
    using assms by (intro signed_take_bit_int_eq_self) (simp_all add: order_trans [of _ 0])
  then show ?thesis by (simp add: sint_uint)
qed

lemma uint_nonzero: "(T :: 32 word) \<noteq> 0 \<Longrightarrow> 1 \<le> uint T"
proof -
  assume "T \<noteq> 0"
  then have "uint T \<noteq> 0" by (simp add: uint_0_iff)
  moreover have "0 \<le> uint T" by simp
  ultimately show ?thesis by linarith
qed

lemma uint_pred: "(T :: 32 word) \<noteq> 0 \<Longrightarrow> uint (T - 1) = uint T - 1"
  using uint_sub_lem [of 1 T] uint_nonzero [of T] by simp

lemma times_div_le:
  fixes H n m :: int
  assumes "0 \<le> H" "0 \<le> n" "n \<le> m" "1 \<le> m"
  shows "n * (H div m) \<le> H"
proof -
  have "0 \<le> H div m" using assms by (simp add: pos_imp_zdiv_nonneg_iff)
  then have "n * (H div m) \<le> m * (H div m)" using assms by (intro mult_right_mono) simp_all
  also have "\<dots> \<le> H"
    using mult_div_mod_eq [of m H] pos_mod_sign [of m H] assms by linarith
  finally show ?thesis .
qed

lemma thread_range_int:
  assumes H: "1 \<le> H" "H < 2 ^ 31" and T: "T \<noteq> 0" and t: "t < T"
  shows "thread_range H T t =
           (uint t * (H div uint T),
            if uint t = uint T - 1 then H else (uint t + 1) * (H div uint T))"
proof -
  let ?Hw = "word_of_int H :: 32 word"
  let ?q = "H div uint T"
  have uT: "1 \<le> uint T" using T by (rule uint_nonzero)
  have ut: "uint t < uint T" using t by (simp add: word_less_def)
  have ut0: "0 \<le> uint t" by simp
  have uH: "uint ?Hw = H" using H by (intro word_of_int_inverse [OF refl]) simp_all
  have q0: "0 \<le> ?q" using H uT by (simp add: pos_imp_zdiv_nonneg_iff)
  have udiv: "uint (?Hw div T) = ?q" by (simp add: uint_div_distrib uH)
  have lpt: "(word_of_int (sint (?Hw div T)) :: 32 word) = ?Hw div T" by simp
  have s1: "uint t * ?q \<le> H" by (rule times_div_le) (use H uT ut ut0 in linarith)+
  have s2: "(uint t + 1) * ?q \<le> H" by (rule times_div_le) (use H uT ut ut0 in linarith)+
  have m1: "uint (t * (?Hw div T)) = uint t * ?q"
    using s1 H uint_mult_lem [of t "?Hw div T"] by (simp add: udiv)
  have a1: "uint (t + 1) = uint t + 1"
    using ut uint_lt2p [of T] uint_add_lem [of t 1] by simp
  have m2: "uint ((t + 1) * (?Hw div T)) = (uint t + 1) * ?q"
    using s2 H uint_mult_lem [of "t + 1" "?Hw div T"] by (simp add: udiv a1)
  have start: "sint (t * (?Hw div T)) = uint t * ?q"
    using s1 H by (simp add: sint_eq_uint_small m1)
  have e1: "sint ((t + 1) * (?Hw div T)) = (uint t + 1) * ?q"
    using s2 H by (simp add: sint_eq_uint_small m2)
  have e2: "sint ?Hw = H" using H by (simp add: sint_eq_uint_small uH)
  have last: "(t = T - 1) = (uint t = uint T - 1)"
    using T by (simp add: word_uint_eq_iff uint_pred)
  show ?thesis
    unfolding thread_range_def Let_def lpt
    by (simp add: start e1 e2 last)
qed

lemma thread_rows_int:
  assumes "1 \<le> H" "H < 2 ^ 31" "T \<noteq> 0" "t < T"
  shows "thread_rows H T t =
           {uint t * (H div uint T) ..<
            (if uint t = uint T - 1 then H else (uint t + 1) * (H div uint T))}"
  by (simp add: thread_rows_def thread_range_int [OF assms])

lemma thread_rows_bounds:
  assumes H: "1 \<le> H" "H < 2 ^ 31" and T: "T \<noteq> 0" and t: "t < T"
  shows "thread_rows H T t \<subseteq> {0 ..< H}"
proof -
  let ?q = "H div uint T"
  have uT: "1 \<le> uint T" using T by (rule uint_nonzero)
  have ut: "uint t < uint T" using t by (simp add: word_less_def)
  have q0: "0 \<le> ?q" using H uT by (simp add: pos_imp_zdiv_nonneg_iff)
  have lo: "0 \<le> uint t * ?q" using q0 by simp
  have hi: "(uint t + 1) * ?q \<le> H"
    by (rule times_div_le) (use H uT ut in simp_all)
  show ?thesis
    using lo hi by (auto simp: thread_rows_int [OF H T t])
qed

lemma thread_rows_disjoint_less:
  assumes H: "1 \<le> H" "H < 2 ^ 31" and T: "T \<noteq> 0" and t: "t < t'" "t' < T"
  shows "thread_rows H T t \<inter> thread_rows H T t' = {}"
proof -
  let ?q = "H div uint T"
  have uT: "1 \<le> uint T" using T by (rule uint_nonzero)
  have tT: "t < T" using t by simp
  have utt: "uint t < uint t'" using t by (simp add: word_less_def)
  have ut': "uint t' < uint T" using t by (simp add: word_less_def)
  have q0: "0 \<le> ?q" using H uT by (simp add: pos_imp_zdiv_nonneg_iff)
  have notlast: "uint t \<noteq> uint T - 1" using utt ut' by simp
  have "(uint t + 1) * ?q \<le> uint t' * ?q"
    using utt q0 by (intro mult_right_mono) simp_all
  then show ?thesis
    using notlast by (auto simp: thread_rows_int [OF H T tT] thread_rows_int [OF H T t(2)])
qed

lemma thread_rows_cover:
  assumes H: "1 \<le> H" "H < 2 ^ 31" and T: "T \<noteq> 0" and j: "0 \<le> j" "j < H"
  shows "\<exists>t. t < T \<and> j \<in> thread_rows H T t"
proof -
  let ?n = "uint T"
  let ?q = "H div ?n"
  have uT: "1 \<le> ?n" using T by (rule uint_nonzero)
  have q0: "0 \<le> ?q" using H uT by (simp add: pos_imp_zdiv_nonneg_iff)
  show ?thesis
  proof (cases "(?n - 1) * ?q \<le> j")
    case True
    have lt: "T - 1 < T" using T by (simp add: word_less_def uint_pred)
    have "j \<in> thread_rows H T (T - 1)"
      using True j T by (simp add: thread_rows_int [OF H T lt] uint_pred)
    with lt show ?thesis by blast
  next
    case False
    then have jl: "j < (?n - 1) * ?q" by simp
    have qpos: "0 < ?q"
    proof (rule ccontr)
      assume "\<not> 0 < ?q"
      with q0 have "?q = 0" by simp
      with jl j show False by simp
    qed
    let ?k = "j div ?q"
    have k0: "0 \<le> ?k" using j qpos by (simp add: pos_imp_zdiv_nonneg_iff)
    have dm: "?k * ?q + j mod ?q = j" by (rule div_mult_mod_eq)
    have m0: "0 \<le> j mod ?q" using qpos by (rule pos_mod_sign)
    have m1: "j mod ?q < ?q" using qpos by (rule pos_mod_bound)
    have lo: "?k * ?q \<le> j" using dm m0 by linarith
    have "?k * ?q < (?n - 1) * ?q" using lo jl by linarith
    then have kl: "?k < ?n - 1" using qpos by (simp only: mult_less_cancel_right_pos)
    have kbig: "?k < 2 ^ 32" using kl uint_lt2p [of T] by simp
    let ?t = "word_of_int ?k :: 32 word"
    have ut: "uint ?t = ?k" using k0 kbig by (intro word_of_int_inverse [OF refl]) simp_all
    have tT: "?t < T" using kl by (simp add: word_less_def ut)
    have "(?k + 1) * ?q = ?k * ?q + ?q" by (simp add: algebra_simps)
    then have hi: "j < (?k + 1) * ?q" using dm m1 by linarith
    have "j \<in> thread_rows H T ?t"
      using lo hi kl by (simp add: thread_rows_int [OF H T tT] ut)
    with tT show ?thesis by blast
  qed
qed

lemma thread_rows_union:
  assumes "1 \<le> H" "H < 2 ^ 31" "T \<noteq> 0"
  shows "(\<Union>t \<in> {t. t < T}. thread_rows H T t) = {0 ..< H}"
proof (intro equalityI subsetI)
  fix j assume "j \<in> (\<Union>t \<in> {t. t < T}. thread_rows H T t)"
  then show "j \<in> {0 ..< H}" using thread_rows_bounds [OF assms] by blast
next
  fix j assume "j \<in> {0 ..< H}"
  then show "j \<in> (\<Union>t \<in> {t. t < T}. thread_rows H T t)"
    using thread_rows_cover [OF assms, of j] by auto
qed

text \<open>
  C1. For an image height \<open>H\<close> with \<open>1 \<le> H\<close> (within the range of \<^verbatim>\<open>int\<close>) and a worker
  count \<open>T \<ge> 1\<close>, the row ranges the scheduler hands to the workers \<open>0, \<dots>, T - 1\<close> have
  the union \<open>[0, H)\<close>, and every row of \<open>[0, H)\<close> lies in the range of exactly one worker.
  This includes worker counts that do not divide \<open>H\<close> and worker counts above \<open>H\<close>.
\<close>

theorem row_partition_cover:
  assumes "1 \<le> H" "H < 2 ^ 31" "T \<noteq> 0"
  shows "(\<Union>t \<in> {t. t < T}. thread_rows H T t) = {0 ..< H} \<and>
         (\<forall>j. 0 \<le> j \<and> j < H \<longrightarrow> (\<exists>!t. t < T \<and> j \<in> thread_rows H T t))"
proof (intro conjI allI impI)
  show "(\<Union>t \<in> {t. t < T}. thread_rows H T t) = {0 ..< H}"
    by (rule thread_rows_union [OF assms])
next
  fix j assume j: "0 \<le> j \<and> j < H"
  then obtain t where t: "t < T" "j \<in> thread_rows H T t"
    using thread_rows_cover [OF assms, of j] by blast
  show "\<exists>!t. t < T \<and> j \<in> thread_rows H T t"
  proof (intro ex1I [of _ t] conjI t)
    fix t' assume t': "t' < T \<and> j \<in> thread_rows H T t'"
    show "t' = t"
    proof (rule ccontr)
      assume "t' \<noteq> t"
      then consider "t' < t" | "t < t'" by (meson linorder_neqE)
      then show False
      proof cases
        case 1
        then show False using thread_rows_disjoint_less [OF assms 1 t(1)] t t' by blast
      next
        case 2
        then show False using thread_rows_disjoint_less [OF assms 2] t t' by blast
      qed
    qed
  qed
qed

theorem row_partition_cover_witness:
  "(\<Union>t \<in> {t. t < (3 :: 32 word)}. thread_rows 7 3 t) = {0 ..< 7} \<and>
   thread_rows 7 3 0 = {0 ..< 2} \<and> thread_rows 7 3 1 = {2 ..< 4} \<and> thread_rows 7 3 2 = {4 ..< 7}"
  using row_partition_cover [of 7 3]
  by (simp add: thread_rows_def thread_range_def)

section \<open>The path integrator\<close>

lemma ray_color_floor:
  "depth \<le> 0 \<Longrightarrow> ray_color r depth world s = ((Vec3 0 0 0, []), s)"
  by (simp add: ray_color.simps)

lemma ray_color_rec_total:
  "ray_color_rec r depth world s = Some (ray_color r depth world s)"
proof (induction r depth world s rule: ray_color.induct)
  case (1 r depth world s)
  show ?case
  proof (cases "depth \<le> 0")
    case True
    then show ?thesis by (simp add: ray_color_rec.simps ray_color.simps)
  next
    case False
    show ?thesis
      using False 1
      by (subst ray_color_rec.simps, subst ray_color.simps)
         (auto split: prod.splits option.splits simp: Let_def)
  qed
qed

lemma ray_color_queries:
  "length (snd (fst (ray_color r depth world s))) \<le> nat depth"
proof (induction "nat depth" arbitrary: r depth s)
  case 0
  then show ?case by (simp add: ray_color.simps)
next
  case (Suc n)
  have pos: "\<not> depth \<le> 0" using Suc.hyps(2) by simp
  have n1: "n = nat (depth - 1)" using Suc.hyps(2) by simp
  have IH: "length (snd (fst (ray_color r' (depth - 1) world s'))) \<le> n" for r' s'
    using Suc.hyps(1) [OF n1, of r' s'] n1 by simp
  have n: "nat depth = Suc n" using Suc.hyps(2) by simp
  show ?case
    using pos IH
    by (subst ray_color.simps) (simp add: n split_beta Let_def split: option.splits)
qed

lemma ray_color_interval:
  "e \<in> set (snd (fst (ray_color r depth world s))) \<Longrightarrow>
     \<exists>r'. e = HitQuery r' \<lparr>imin = Fin 0.001, imax = infinity\<rparr>"
proof (induction r depth world s rule: ray_color.induct)
  case (1 r depth world s)
  show ?case
  proof (cases "depth \<le> 0")
    case True
    then show ?thesis using "1.prems" by (simp add: ray_color.simps)
  next
    case False
    show ?thesis
      using False 1
      by (subst (asm) ray_color.simps) (auto split: prod.splits option.splits simp: Let_def)
  qed
qed

lemma ray_color_first_query:
  "0 < depth \<Longrightarrow>
     hd (snd (fst (ray_color r depth world s))) = HitQuery r \<lparr>imin = Fin 0.001, imax = infinity\<rparr>
     \<and> snd (fst (ray_color r depth world s)) \<noteq> []"
  by (subst ray_color.simps, subst ray_color.simps) (auto split: prod.splits option.splits simp: Let_def)

lemma ray_color_miss:
  assumes "0 < depth" "fst (hit world r \<lparr>imin = Fin 0.001, imax = infinity\<rparr> s) = None"
  shows "fst (fst (ray_color r depth world s)) =
           smul (1.0 - 0.5 * (vy (unit_vector (direction r)) + 1.0)) (Vec3 1.0 1.0 1.0)
           + smul (0.5 * (vy (unit_vector (direction r)) + 1.0)) (Vec3 0.5 0.7 1.0)"
  using assms by (subst ray_color.simps) (auto split: prod.splits option.splits simp: Let_def)

lemma sqrt_25: "sqrt 25 = 5"
proof -
  have "sqrt ((5::real)\<^sup>2) = 5" by (simp only: real_sqrt_abs abs_numeral)
  then show ?thesis by simp
qed

text \<open>
  C3. \<^verbatim>\<open>ray_color\<close> returns for every ray, every depth budget and every scene: the
  recursion written without a termination argument has a result (it is never \<open>None\<close>),
  the one the total function computes. Each recursive call lowers \<open>depth\<close> by one and a
  call with \<open>depth \<le> 0\<close> makes none, so a call makes at most \<open>depth\<close> hit tests.
\<close>

theorem ray_color_terminates:
  "ray_color_rec r depth world s = Some (ray_color r depth world s) \<and>
   length (snd (fst (ray_color r depth world s))) \<le> nat depth"
  by (simp add: ray_color_rec_total ray_color_queries)

theorem ray_color_terminates_witness:
  "ray_color_rec \<lparr>origin = Vec3 0 0 0, direction = Vec3 0 0 (- 1)\<rparr> 3 demo_world (0 :: nat) =
     Some ((Vec3 0 0 0,
            [HitQuery \<lparr>origin = Vec3 0 0 0, direction = Vec3 0 0 (- 1)\<rparr> \<lparr>imin = Fin 0.001, imax = PosInf\<rparr>,
             HitQuery \<lparr>origin = Vec3 0 0 0, direction = Vec3 0 0 (- 1)\<rparr> \<lparr>imin = Fin 0.001, imax = PosInf\<rparr>,
             HitQuery \<lparr>origin = Vec3 0 0 0, direction = Vec3 0 0 (- 1)\<rparr> \<lparr>imin = Fin 0.001, imax = PosInf\<rparr>]), 0)"
  using ray_color_terminates [of "\<lparr>origin = Vec3 0 0 0, direction = Vec3 0 0 (- 1)\<rparr>" 3 demo_world "0 :: nat"]
  by (simp add: ray_color.simps demo_world_def infinity_def times_vec3_def)

text \<open>
  C4. For a ray \<open>r\<close> with a depth budget above zero whose hit test reports no hit,
  \<^verbatim>\<open>ray_color\<close> returns \<open>(1 - a) * (1, 1, 1) + a * (0.5, 0.7, 1.0)\<close> with
  \<open>a = 0.5 * (y(unit_vector(direction r)) + 1)\<close>. A scene with no geometry reports no
  hit for any ray, so it always yields this gradient.
\<close>

theorem background_on_miss:
  assumes "0 < depth" "fst (hit world r \<lparr>imin = Fin 0.001, imax = PosInf\<rparr> s) = None"
  shows "fst (fst (ray_color r depth world s)) =
           smul (1 - 0.5 * (vy (unit_vector (direction r)) + 1)) (Vec3 1 1 1)
           + smul (0.5 * (vy (unit_vector (direction r)) + 1)) (Vec3 0.5 0.7 1.0)"
  using ray_color_miss [of depth world r s] assms by (simp add: infinity_def)

theorem background_on_miss_witness:
  "(0 :: int) < 5 \<and>
   fst (hit empty_world \<lparr>origin = Vec3 0 0 0, direction = Vec3 3 4 0\<rparr>
          \<lparr>imin = Fin 0.001, imax = PosInf\<rparr> (0 :: nat)) = None \<and>
   fst (fst (ray_color \<lparr>origin = Vec3 0 0 0, direction = Vec3 3 4 0\<rparr> 5 empty_world (0 :: nat))) =
     Vec3 0.55 0.73 1"
  using background_on_miss [of 5 empty_world "\<lparr>origin = Vec3 0 0 0, direction = Vec3 3 4 0\<rparr>" "0 :: nat"]
  by (simp add: empty_world_def unit_vector_def vdiv_def length_vec_def dot_def smul_def
        plus_vec3_def sqrt_25)

lemma ray_color_hit_cong:
  assumes h: "\<And>r' s'. hit world r' \<lparr>imin = Fin 0.001, imax = infinity\<rparr> s' =
                        hit world' r' \<lparr>imin = Fin 0.001, imax = infinity\<rparr> s'"
    and sc: "scatter world = scatter world'"
  shows "ray_color r depth world s = ray_color r depth world' s"
proof (induction "nat depth" arbitrary: r depth s)
  case 0
  then show ?case by (simp add: ray_color.simps)
next
  case (Suc n)
  have pos: "\<not> depth \<le> 0" using Suc.hyps(2) by simp
  have n1: "n = nat (depth - 1)" using Suc.hyps(2) by simp
  have IH: "ray_color r' (depth - 1) world s' = ray_color r' (depth - 1) world' s'" for r' s'
    by (rule Suc.hyps(1) [OF n1])
  show ?case
  proof (cases "hit world' r \<lparr>imin = Fin 0.001, imax = infinity\<rparr> s")
    case (Pair ho s1)
    have hw: "hit world r \<lparr>imin = Fin 0.001, imax = infinity\<rparr> s = (ho, s1)"
      using h [of r s] Pair by simp
    show ?thesis
    proof (cases ho)
      case None
      show ?thesis
        by (subst ray_color.simps [of r depth world], subst ray_color.simps [of r depth world'])
           (simp only: pos hw Pair None if_False prod.case option.case)
    next
      case (Some rec)
      obtain so s2 where sw: "scatter world' r rec s1 = (so, s2)"
        by (cases "scatter world' r rec s1")
      show ?thesis
        by (subst ray_color.simps [of r depth world], subst ray_color.simps [of r depth world'])
           (simp only: pos hw Pair Some sc sw IH if_False prod.case option.case)
    qed
  qed
qed

lemma ray_color_unfold:
  assumes "0 < depth"
  shows "ray_color r depth world s =
     (case hit world r \<lparr>imin = Fin 0.001, imax = PosInf\<rparr> s of
        (Some rec, s1) \<Rightarrow>
          (case scatter world r rec s1 of
             (Some (attenuation, scattered), s2) \<Rightarrow>
               (case ray_color scattered (depth - 1) world s2 of
                  ((c, tr), s3) \<Rightarrow>
                    ((attenuation * c,
                      HitQuery r \<lparr>imin = Fin 0.001, imax = PosInf\<rparr> # tr), s3))
           | (None, s2) \<Rightarrow>
               ((Vec3 0 0 0, [HitQuery r \<lparr>imin = Fin 0.001, imax = PosInf\<rparr>]), s2))
      | (None, s1) \<Rightarrow>
          ((smul (1 - 0.5 * (vy (unit_vector (direction r)) + 1)) (Vec3 1 1 1)
            + smul (0.5 * (vy (unit_vector (direction r)) + 1)) (Vec3 0.5 0.7 1.0),
            [HitQuery r \<lparr>imin = Fin 0.001, imax = PosInf\<rparr>]), s1))"
  using assms
  by (subst ray_color.simps) (simp add: infinity_def Let_def split: prod.splits option.splits)


text \<open>
  C5. \<^verbatim>\<open>ray_color\<close> asks the scene's hit test about one interval only, the one whose
  lower bound is 0.001 and whose upper bound is \<^verbatim>\<open>infinity\<close>. Every hit test it makes, at
  any depth of the recursion, is made with that interval, and with a depth budget above
  zero the first one is made for the ray itself. Its result does not depend on what
  \<^verbatim>\<open>hit\<close> answers for any other interval: two scenes whose hit tests agree on this
  interval, and that scatter alike, give the same colour, the same hit tests and the same
  final state. And with a depth budget above zero the result is decided by the answer of
  \<^verbatim>\<open>hit\<close> for the ray on this interval: the background colour on a miss, black when the
  surface absorbs the ray, and otherwise the attenuation times the colour of the scattered
  ray at one less depth.
\<close>

theorem hit_interval_fixed:
  "(\<forall>e \<in> set (snd (fst (ray_color r depth world s))).
      \<exists>r'. e = HitQuery r' \<lparr>imin = Fin 0.001, imax = PosInf\<rparr>) \<and>
   (0 < depth \<longrightarrow>
      snd (fst (ray_color r depth world s)) \<noteq> [] \<and>
      hd (snd (fst (ray_color r depth world s))) = HitQuery r \<lparr>imin = Fin 0.001, imax = PosInf\<rparr>) \<and>
   ((\<forall>r' s'. hit world r' \<lparr>imin = Fin 0.001, imax = PosInf\<rparr> s' =
              hit world' r' \<lparr>imin = Fin 0.001, imax = PosInf\<rparr> s') \<and>
    scatter world = scatter world' \<longrightarrow>
      ray_color r depth world s = ray_color r depth world' s) \<and>
   (0 < depth \<longrightarrow>
      ray_color r depth world s =
        (case hit world r \<lparr>imin = Fin 0.001, imax = PosInf\<rparr> s of
           (Some rec, s1) \<Rightarrow>
             (case scatter world r rec s1 of
                (Some (attenuation, scattered), s2) \<Rightarrow>
                  (case ray_color scattered (depth - 1) world s2 of
                     ((c, tr), s3) \<Rightarrow>
                       ((attenuation * c,
                         HitQuery r \<lparr>imin = Fin 0.001, imax = PosInf\<rparr> # tr), s3))
              | (None, s2) \<Rightarrow>
                  ((Vec3 0 0 0, [HitQuery r \<lparr>imin = Fin 0.001, imax = PosInf\<rparr>]), s2))
         | (None, s1) \<Rightarrow>
             ((smul (1 - 0.5 * (vy (unit_vector (direction r)) + 1)) (Vec3 1 1 1)
               + smul (0.5 * (vy (unit_vector (direction r)) + 1)) (Vec3 0.5 0.7 1.0),
               [HitQuery r \<lparr>imin = Fin 0.001, imax = PosInf\<rparr>]), s1)))"
proof (intro conjI impI ballI)
  fix e assume "e \<in> set (snd (fst (ray_color r depth world s)))"
  then show "\<exists>r'. e = HitQuery r' \<lparr>imin = Fin 0.001, imax = PosInf\<rparr>"
    using ray_color_interval [of e r depth world s] by (simp add: infinity_def)
next
  assume "0 < depth"
  then show "snd (fst (ray_color r depth world s)) \<noteq> []"
    using ray_color_first_query [of depth r world s] by simp
next
  assume "0 < depth"
  then show "hd (snd (fst (ray_color r depth world s))) =
               HitQuery r \<lparr>imin = Fin 0.001, imax = PosInf\<rparr>"
    using ray_color_first_query [of depth r world s] by (simp add: infinity_def)
next
  assume a: "(\<forall>r' s'. hit world r' \<lparr>imin = Fin 0.001, imax = PosInf\<rparr> s' =
              hit world' r' \<lparr>imin = Fin 0.001, imax = PosInf\<rparr> s') \<and>
    scatter world = scatter world'"
  show "ray_color r depth world s = ray_color r depth world' s"
    by (rule ray_color_hit_cong) (use a in \<open>simp_all add: infinity_def\<close>)
next
  assume "0 < depth"
  then show "ray_color r depth world s =
        (case hit world r \<lparr>imin = Fin 0.001, imax = PosInf\<rparr> s of
           (Some rec, s1) \<Rightarrow>
             (case scatter world r rec s1 of
                (Some (attenuation, scattered), s2) \<Rightarrow>
                  (case ray_color scattered (depth - 1) world s2 of
                     ((c, tr), s3) \<Rightarrow>
                       ((attenuation * c,
                         HitQuery r \<lparr>imin = Fin 0.001, imax = PosInf\<rparr> # tr), s3))
              | (None, s2) \<Rightarrow>
                  ((Vec3 0 0 0, [HitQuery r \<lparr>imin = Fin 0.001, imax = PosInf\<rparr>]), s2))
         | (None, s1) \<Rightarrow>
             ((smul (1 - 0.5 * (vy (unit_vector (direction r)) + 1)) (Vec3 1 1 1)
               + smul (0.5 * (vy (unit_vector (direction r)) + 1)) (Vec3 0.5 0.7 1.0),
               [HitQuery r \<lparr>imin = Fin 0.001, imax = PosInf\<rparr>]), s1))"
    by (rule ray_color_unfold)
qed


theorem hit_interval_fixed_witness:
  "(0 :: int) < 2 \<and>
   scatter probe_world = scatter empty_world \<and>
   hit probe_world \<lparr>origin = Vec3 0 0 0, direction = Vec3 0 1 0\<rparr>
       \<lparr>imin = Fin 0, imax = PosInf\<rparr> (0 :: nat) \<noteq>
     hit empty_world \<lparr>origin = Vec3 0 0 0, direction = Vec3 0 1 0\<rparr>
       \<lparr>imin = Fin 0, imax = PosInf\<rparr> 0 \<and>
   ray_color \<lparr>origin = Vec3 0 0 0, direction = Vec3 0 1 0\<rparr> 2 probe_world (0 :: nat) =
     ray_color \<lparr>origin = Vec3 0 0 0, direction = Vec3 0 1 0\<rparr> 2 empty_world 0 \<and>
   snd (fst (ray_color \<lparr>origin = Vec3 0 0 0, direction = Vec3 0 0 (- 1)\<rparr> 2 demo_world (0 :: nat))) =
     [HitQuery \<lparr>origin = Vec3 0 0 0, direction = Vec3 0 0 (- 1)\<rparr> \<lparr>imin = Fin 0.001, imax = PosInf\<rparr>,
      HitQuery \<lparr>origin = Vec3 0 0 0, direction = Vec3 0 0 (- 1)\<rparr> \<lparr>imin = Fin 0.001, imax = PosInf\<rparr>]"
proof -
  have agree: "\<forall>r' s'. hit probe_world r' \<lparr>imin = Fin 0.001, imax = PosInf\<rparr> s' =
                       hit empty_world r' \<lparr>imin = Fin 0.001, imax = PosInf\<rparr> s'"
    by (simp add: probe_world_def empty_world_def)
  have sc: "scatter probe_world = scatter empty_world"
    by (simp add: probe_world_def empty_world_def)
  have differ: "hit probe_world \<lparr>origin = Vec3 0 0 0, direction = Vec3 0 1 0\<rparr>
       \<lparr>imin = Fin 0, imax = PosInf\<rparr> (0 :: nat) \<noteq>
     hit empty_world \<lparr>origin = Vec3 0 0 0, direction = Vec3 0 1 0\<rparr>
       \<lparr>imin = Fin 0, imax = PosInf\<rparr> 0"
    by (simp add: probe_world_def empty_world_def)
  note t = hit_interval_fixed [of "\<lparr>origin = Vec3 0 0 0, direction = Vec3 0 1 0\<rparr>" 2
      probe_world "0 :: nat" empty_world]
  have same: "ray_color \<lparr>origin = Vec3 0 0 0, direction = Vec3 0 1 0\<rparr> 2 probe_world (0 :: nat) =
     ray_color \<lparr>origin = Vec3 0 0 0, direction = Vec3 0 1 0\<rparr> 2 empty_world 0"
    using t [THEN conjunct2, THEN conjunct2, THEN conjunct1] agree sc by blast
  have tr: "snd (fst (ray_color \<lparr>origin = Vec3 0 0 0, direction = Vec3 0 0 (- 1)\<rparr> 2 demo_world (0 :: nat))) =
     [HitQuery \<lparr>origin = Vec3 0 0 0, direction = Vec3 0 0 (- 1)\<rparr> \<lparr>imin = Fin 0.001, imax = PosInf\<rparr>,
      HitQuery \<lparr>origin = Vec3 0 0 0, direction = Vec3 0 0 (- 1)\<rparr> \<lparr>imin = Fin 0.001, imax = PosInf\<rparr>]"
    by (simp add: ray_color.simps demo_world_def infinity_def)
  show ?thesis using sc differ same tr by simp
qed

section \<open>The camera\<close>

lemma initialize_keeps:
  "max_depth (initialize cam) = max_depth cam"
  "image_width (initialize cam) = image_width cam"
  "samples_per_pixel (initialize cam) = samples_per_pixel cam"
  "defocus_angle (initialize cam) = defocus_angle cam"
  by (simp_all add: initialize_def Let_def)

lemma initialize_height: "1 \<le> image_height (initialize cam)"
  by (simp add: initialize_def Let_def)

lemma initialize_width_zero:
  "image_width cam = 0 \<Longrightarrow> image_height (initialize cam) = 1"
  by (simp add: initialize_def Let_def int_of_double_def)

lemma height_of_product:
  assumes W: "0 \<le> image_width cam0"
    and WH: "image_width cam0 * image_height (initialize cam0) < 2 ^ 31"
  shows "image_height (initialize cam0) < 2 ^ 31"
proof (cases "image_width cam0 = 0")
  case True
  then show ?thesis by (simp add: initialize_width_zero)
next
  case False
  then have "1 \<le> image_width cam0" using W by simp
  then have "1 * image_height (initialize cam0) \<le> image_width cam0 * image_height (initialize cam0)"
    using initialize_height [of cam0] by (intro mult_right_mono) simp_all
  then show ?thesis using WH by simp
qed










section \<open>What a worker does\<close>

lemma map_filter_append:
  "List.map_filter f (xs @ ys) = List.map_filter f xs @ List.map_filter f ys"
  by (simp add: List.map_filter_def)

lemma dec_rows_simps:
  "dec_rows [] = []"
  "dec_rows (Decrement j # tr) = j # dec_rows tr"
  "dec_rows (Store k c # tr) = dec_rows tr"
  "dec_rows (HitQuery r iv # tr) = dec_rows tr"
  "dec_rows (tr @ tr') = dec_rows tr @ dec_rows tr'"
  by (simp_all add: dec_rows_def map_filter_append)

lemma store_indices_simps:
  "store_indices [] = []"
  "store_indices (Decrement j # tr) = store_indices tr"
  "store_indices (Store k c # tr) = k # store_indices tr"
  "store_indices (HitQuery r iv # tr) = store_indices tr"
  "store_indices (tr @ tr') = store_indices tr @ store_indices tr'"
  by (simp_all add: store_indices_def map_filter_append)

lemma only_hits_projections:
  assumes "\<forall>e \<in> set tr. \<exists>r iv. e = HitQuery r iv"
  shows "dec_rows tr = [] \<and> store_indices tr = []"
  using assms by (induction tr) (auto simp: dec_rows_simps store_indices_simps)

lemma ray_color_only_hits:
  "\<forall>e \<in> set (snd (fst (ray_color r depth world s))). \<exists>r' iv. e = HitQuery r' iv"
  using ray_color_interval [of _ r depth world s] by blast

lemma sample_loop_only_hits:
  "\<forall>e \<in> set (snd (fst (sample_loop cam rnd world i j sample pixel_color s))).
     \<exists>r iv. e = HitQuery r iv"
proof (induction cam rnd world i j sample pixel_color s rule: sample_loop.induct)
  case (1 cam rnd world i j sample pixel_color s)
  show ?case
  proof (cases "sample < samples_per_pixel cam")
    case True
    obtain r s1 where g: "get_ray cam rnd i j s = (r, s1)" by (cases "get_ray cam rnd i j s")
    obtain c tr s2 where rc: "ray_color r (max_depth cam) world s1 = ((c, tr), s2)"
      by (metis surj_pair)
    have h: "\<forall>e \<in> set tr. \<exists>r iv. e = HitQuery r iv"
      using ray_color_only_hits [of r "max_depth cam" world s1] rc by simp
    have IH: "\<forall>e \<in> set (snd (fst (sample_loop cam rnd world i j (sample + 1) (pixel_color + c) s2))).
                \<exists>r iv. e = HitQuery r iv"
      using "1.IH" [OF True g [symmetric] rc [symmetric] refl] .
    show ?thesis
      using True g rc h IH by (subst sample_loop.simps) (auto simp: split_beta)
  next
    case False
    then show ?thesis by (subst sample_loop.simps) simp
  qed
qed

lemma column_loop_projections:
  "dec_rows (fst (column_loop cam rnd world j i s)) = [] \<and>
   store_indices (fst (column_loop cam rnd world j i s)) =
     [j * image_width cam + i .. j * image_width cam + image_width cam - 1]"
proof (induction cam rnd world j i s rule: column_loop.induct)
  case (1 cam rnd world j i s)
  show ?case
  proof (cases "i < image_width cam")
    case True
    obtain pc tr s1 where sl: "sample_loop cam rnd world i j 0 (Vec3 0 0 0) s = ((pc, tr), s1)"
      by (metis surj_pair)
    have h: "dec_rows tr = [] \<and> store_indices tr = []"
      using only_hits_projections [OF sample_loop_only_hits [of cam rnd world i j 0 "Vec3 0 0 0" s]] sl
      by simp
    have IH: "dec_rows (fst (column_loop cam rnd world j (i + 1) s1)) = [] \<and>
              store_indices (fst (column_loop cam rnd world j (i + 1) s1)) =
                [j * image_width cam + (i + 1) .. j * image_width cam + image_width cam - 1]"
      using "1.IH" [OF True sl [symmetric] refl] .
    have up: "[j * image_width cam + i .. j * image_width cam + image_width cam - 1] =
                (j * image_width cam + i) #
                [j * image_width cam + (i + 1) .. j * image_width cam + image_width cam - 1]"
      using True by (subst upto_rec1) (simp_all add: add.assoc)
    show ?thesis
      using True sl h IH
      by (subst (1 2) column_loop.simps) (simp add: split_beta dec_rows_simps store_indices_simps up)
  next
    case False
    then show ?thesis by (subst (1 2) column_loop.simps) (simp add: dec_rows_simps store_indices_simps)
  qed
qed

lemma upto_append: "a \<le> b \<Longrightarrow> b \<le> c + 1 \<Longrightarrow> [a..b - 1] @ [b..c] = [a..c]"
proof (cases "b \<le> c")
  case True
  assume "a \<le> b"
  then show ?thesis using True by (simp add: upto_split1 [of a b c])
next
  case False
  assume "b \<le> c + 1"
  with False have "b = c + 1" by simp
  then show ?thesis by simp
qed

lemma render_lines_projections:
  "0 \<le> image_width cam \<Longrightarrow>
     dec_rows (fst (render_lines cam rnd world j end_line s)) = [j .. end_line - 1] \<and>
     store_indices (fst (render_lines cam rnd world j end_line s)) =
       [j * image_width cam .. end_line * image_width cam - 1]"
proof (induction cam rnd world j end_line s rule: render_lines.induct)
  case (1 cam rnd world j end_line s)
  let ?W = "image_width cam"
  show ?case
  proof (cases "j < end_line")
    case True
    obtain tr s1 where cl: "column_loop cam rnd world j 0 s = (tr, s1)"
      by (metis surj_pair)
    have row: "dec_rows tr = []" "store_indices tr = [j * ?W .. j * ?W + ?W - 1]"
      using column_loop_projections [of cam rnd world j 0 s] cl by simp_all
    have IH: "dec_rows (fst (render_lines cam rnd world (j + 1) end_line s1)) = [j + 1 .. end_line - 1]"
      "store_indices (fst (render_lines cam rnd world (j + 1) end_line s1)) =
           [(j + 1) * ?W .. end_line * ?W - 1]"
      using "1.IH" [OF True cl [symmetric] "1.prems"] by simp_all
    have le: "(j + 1) * ?W \<le> end_line * ?W"
      using True "1.prems" by (intro mult_right_mono) simp_all
    have "[j * ?W .. (j + 1) * ?W - 1] @ [(j + 1) * ?W .. end_line * ?W - 1] =
            [j * ?W .. end_line * ?W - 1]"
      using le "1.prems" by (intro upto_append) (simp_all add: algebra_simps)
    moreover have "j * ?W + ?W - 1 = (j + 1) * ?W - 1" by (simp add: algebra_simps)
    ultimately have st: "[j * ?W .. j * ?W + ?W - 1] @ [(j + 1) * ?W .. end_line * ?W - 1] =
            [j * ?W .. end_line * ?W - 1]" by simp
    have dr: "[j .. end_line - 1] = j # [j + 1 .. end_line - 1]"
      using True by (subst upto_rec1) simp_all
    show ?thesis
      using True cl
      by (subst (1 2) render_lines.simps)
         (simp add: split_beta dec_rows_simps store_indices_simps row IH st dr)
  next
    case False
    have "end_line * ?W \<le> j * ?W"
      using False "1.prems" by (intro mult_right_mono) simp_all
    then show ?thesis
      using False by (subst (1 2) render_lines.simps) (simp add: dec_rows_simps store_indices_simps)
  qed
qed

lemma render_lines_dec_rows:
  "dec_rows (fst (render_lines cam rnd world j end_line s)) = [j .. end_line - 1]"
proof (induction cam rnd world j end_line s rule: render_lines.induct)
  case (1 cam rnd world j end_line s)
  show ?case
  proof (cases "j < end_line")
    case True
    obtain tr s1 where cl: "column_loop cam rnd world j 0 s = (tr, s1)"
      by (metis surj_pair)
    have row: "dec_rows tr = []"
      using column_loop_projections [of cam rnd world j 0 s] cl by simp
    have IH: "dec_rows (fst (render_lines cam rnd world (j + 1) end_line s1)) = [j + 1 .. end_line - 1]"
      using "1.IH" [OF True cl [symmetric]] by simp
    have dr: "[j .. end_line - 1] = j # [j + 1 .. end_line - 1]"
      using True by (subst upto_rec1) simp_all
    show ?thesis
      using True cl
      by (subst render_lines.simps) (simp add: split_beta dec_rows_simps row IH dr)
  next
    case False
    then show ?thesis by (subst render_lines.simps) (simp add: dec_rows_simps)
  qed
qed

lemma store_in_indices: "Store k c \<in> set tr \<Longrightarrow> k \<in> set (store_indices tr)"
  by (induction tr) (auto simp: store_indices_def split: option.splits)

lemma dec_in_rows: "Decrement j \<in> set tr \<longleftrightarrow> j \<in> set (dec_rows tr)"
proof (induction tr)
  case Nil
  then show ?case by (simp add: dec_rows_simps)
next
  case (Cons e tr)
  then show ?case by (cases e) (auto simp: dec_rows_simps)
qed

lemma index_row:
  fixes W :: int
  assumes W: "0 < W"
  shows "(a * W \<le> k \<and> k \<le> b * W - 1) = (a \<le> k div W \<and> k div W < b)"
proof -
  let ?q = "k div W"
  have dm: "?q * W + k mod W = k" by (rule div_mult_mod_eq)
  have m0: "0 \<le> k mod W" using W by (rule pos_mod_sign)
  have m1: "k mod W < W" using W by (rule pos_mod_bound)
  have q1: "(?q + 1) * W = ?q * W + W" by (simp add: algebra_simps)
  show ?thesis
  proof (intro iffI conjI)
    assume h: "a * W \<le> k \<and> k \<le> b * W - 1"
    have "a * W < (?q + 1) * W" using h dm m1 q1 by linarith
    then have "a < ?q + 1" using W by (simp only: mult_less_cancel_right_pos)
    then show "a \<le> ?q" by simp
    have "?q * W < b * W" using h dm m0 by linarith
    then show "?q < b" using W by (simp only: mult_less_cancel_right_pos)
  next
    assume h: "a \<le> ?q \<and> ?q < b"
    have "a * W \<le> ?q * W" using h W by (intro mult_right_mono) simp_all
    then show "a * W \<le> k" using dm m0 by linarith
  next
    assume h: "a \<le> ?q \<and> ?q < b"
    have "(?q + 1) * W \<le> b * W" using h W by (intro mult_right_mono) simp_all
    then show "k \<le> b * W - 1" using dm m1 q1 by linarith
  qed
qed

lemma index_set_rows:
  fixes W :: int
  assumes "0 < W"
  shows "{a * W .. b * W - 1} = {k. k div W \<in> {a ..< b}}"
  using index_row [OF assms] by auto

lemma row_of_index:
  fixes W :: int
  assumes "j * W \<le> k" "k \<le> j * W + W - 1"
  shows "k div W = j"
proof -
  have W: "0 < W" using assms by linarith
  have "k \<le> (j + 1) * W - 1" using assms(2) by (simp add: algebra_simps)
  then have "j \<le> k div W \<and> k div W < j + 1"
    using index_row [OF W, of j k "j + 1"] assms(1) by simp
  then show ?thesis by simp
qed

lemma render_lines_rows:
  "\<exists>\<sigma>. (j < end_line \<longrightarrow> \<sigma> j = s) \<and>
       (\<forall>j'. j \<le> j' \<and> j' + 1 < end_line \<longrightarrow>
          \<sigma> (j' + 1) = snd (column_loop cam rnd world j' 0 (\<sigma> j'))) \<and>
       fst (render_lines cam rnd world j end_line s) =
         concat (map (\<lambda>j'. Decrement j' # fst (column_loop cam rnd world j' 0 (\<sigma> j')))
                     [j .. end_line - 1])"
proof (induction cam rnd world j end_line s rule: render_lines.induct)
  case (1 cam rnd world j end_line s)
  show ?case
  proof (cases "j < end_line")
    case False
    have "fst (render_lines cam rnd world j end_line s) = []"
      using False by (subst render_lines.simps) simp
    then have c: "fst (render_lines cam rnd world j end_line s) =
                    concat (map (\<lambda>j'. Decrement j' # fst (column_loop cam rnd world j' 0 s))
                                [j .. end_line - 1])"
      using False by simp
    have b: "\<not> (j \<le> j' \<and> j' + 1 < end_line)" for j' using False by linarith
    show ?thesis
      by (rule exI [of _ "\<lambda>j'. s"]) (use False b c in blast)

  next
    case True
    obtain tr s1 where cl: "column_loop cam rnd world j 0 s = (tr, s1)"
      by (metis surj_pair)
    let ?blk = "\<lambda>\<sigma> j'. Decrement j' # fst (column_loop cam rnd world j' 0 (\<sigma> j'))"
    obtain \<sigma>' where s': "j + 1 < end_line \<longrightarrow> \<sigma>' (j + 1) = s1"
      and c': "\<forall>j'. j + 1 \<le> j' \<and> j' + 1 < end_line \<longrightarrow>
                 \<sigma>' (j' + 1) = snd (column_loop cam rnd world j' 0 (\<sigma>' j'))"
      and t': "fst (render_lines cam rnd world (j + 1) end_line s1) =
                 concat (map (?blk \<sigma>') [j + 1 .. end_line - 1])"
      using "1.IH" [OF True cl [symmetric]] by blast
    let ?\<sigma> = "\<sigma>'(j := s)"
    have a: "?\<sigma> j = s" by simp
    have b: "?\<sigma> (j' + 1) = snd (column_loop cam rnd world j' 0 (?\<sigma> j'))"
      if h: "j \<le> j' \<and> j' + 1 < end_line" for j'
    proof (cases "j' = j")
      case True
      then show ?thesis using s' h cl by simp
    next
      case False
      then show ?thesis using c' h by simp
    qed
    have m: "map (?blk ?\<sigma>) [j + 1 .. end_line - 1] = map (?blk \<sigma>') [j + 1 .. end_line - 1]"
      by (rule map_cong) simp_all
    have u: "[j .. end_line - 1] = j # [j + 1 .. end_line - 1]"
      using True by (simp add: upto_rec1)
    have "fst (render_lines cam rnd world j end_line s) =
            Decrement j # tr @ fst (render_lines cam rnd world (j + 1) end_line s1)"
      using True cl by (subst render_lines.simps) (simp add: split_beta)
    also have "\<dots> = ?blk ?\<sigma> j @ concat (map (?blk \<sigma>') [j + 1 .. end_line - 1])"
      unfolding t' using cl by simp
    also have "\<dots> = concat (map (?blk ?\<sigma>) [j .. end_line - 1])"
      unfolding u m [symmetric] by (simp only: list.map concat.simps)
    finally have c: "fst (render_lines cam rnd world j end_line s) =
                       concat (map (?blk ?\<sigma>) [j .. end_line - 1])" .
    show ?thesis
      by (rule exI [of _ ?\<sigma>]) (use a b c in blast)
  qed
qed

lemma render_lines_dec_first:
  "fst (render_lines cam rnd world j end_line s) = ys @ Store k c # zs \<Longrightarrow>
     Decrement (k div image_width cam) \<in> set ys"
proof (induction cam rnd world j end_line s arbitrary: ys rule: render_lines.induct)
  case (1 cam rnd world j end_line s)
  let ?W = "image_width cam"
  show ?case
  proof (cases "j < end_line")
    case True
    obtain tr s1 where cl: "column_loop cam rnd world j 0 s = (tr, s1)"
      by (metis surj_pair)
    let ?rest = "fst (render_lines cam rnd world (j + 1) end_line s1)"
    have row: "store_indices tr = [j * ?W .. j * ?W + ?W - 1]"
      using column_loop_projections [of cam rnd world j 0 s] cl by simp
    have IH: "?rest = us @ Store k c # zs \<Longrightarrow> Decrement (k div ?W) \<in> set us" for us
      using "1.IH" [OF True cl [symmetric]] by simp
    have eq: "Decrement j # tr @ ?rest = ys @ Store k c # zs"
      using "1.prems" True cl by (subst (asm) render_lines.simps) (simp add: split_beta)
    then obtain ys' where ys: "ys = Decrement j # ys'" "tr @ ?rest = ys' @ Store k c # zs"
      by (cases ys) auto
    from ys(2) consider
        us where "tr = ys' @ us" "us @ ?rest = Store k c # zs"
      | us where "tr @ us = ys'" "?rest = us @ Store k c # zs"
      by (auto simp: append_eq_append_conv2)
    then show ?thesis
    proof cases
      case 1
      show ?thesis
      proof (cases us)
        case Nil
        then have "?rest = [] @ Store k c # zs" using 1(2) by simp
        then show ?thesis using IH by fastforce
      next
        case (Cons e us')
        then have "Store k c \<in> set tr" using 1 by auto
        then have "k \<in> set [j * ?W .. j * ?W + ?W - 1]"
          using store_in_indices [of k c tr] row by simp
        then have "k div ?W = j" by (intro row_of_index) simp_all
        then show ?thesis using ys(1) by simp
      qed
    next
      case 2
      then have "Decrement (k div ?W) \<in> set us" using IH by simp
      then show ?thesis using 2(1) ys(1) by auto
    qed
  next
    case False
    then show ?thesis using "1.prems" by (subst (asm) render_lines.simps) simp
  qed
qed

lemma column_loop_store:
  "Store k c \<in> set (fst (column_loop cam rnd world j i s)) \<Longrightarrow>
     \<exists>i' s'. i \<le> i' \<and> i' < image_width cam \<and> k = j * image_width cam + i' \<and>
       c = smul (pixel_samples_scale cam)
             (fst (fst (sample_loop cam rnd world i' j 0 (Vec3 0 0 0) s')))"
proof (induction cam rnd world j i s rule: column_loop.induct)
  case (1 cam rnd world j i s)
  show ?case
  proof (cases "i < image_width cam")
    case True
    obtain pc tr s1 where sl: "sample_loop cam rnd world i j 0 (Vec3 0 0 0) s = ((pc, tr), s1)"
      by (metis surj_pair)
    have h: "Store k c \<notin> set tr"
      using sample_loop_only_hits [of cam rnd world i j 0 "Vec3 0 0 0" s] sl by auto
    have IH: "Store k c \<in> set (fst (column_loop cam rnd world j (i + 1) s1)) \<Longrightarrow>
      \<exists>i' s'. i + 1 \<le> i' \<and> i' < image_width cam \<and> k = j * image_width cam + i' \<and>
       c = smul (pixel_samples_scale cam)
             (fst (fst (sample_loop cam rnd world i' j 0 (Vec3 0 0 0) s')))"
      using "1.IH" [OF True sl [symmetric] refl] .
    have "Store k c \<in> set (tr @ Store (j * image_width cam + i) (smul (pixel_samples_scale cam) pc)
                              # fst (column_loop cam rnd world j (i + 1) s1))"
      using "1.prems" True sl by (subst (asm) column_loop.simps) (simp add: split_beta)
    then consider "k = j * image_width cam + i" "c = smul (pixel_samples_scale cam) pc"
      | "Store k c \<in> set (fst (column_loop cam rnd world j (i + 1) s1))"
      using h by auto
    then show ?thesis
    proof cases
      case 1
      have "c = smul (pixel_samples_scale cam)
             (fst (fst (sample_loop cam rnd world i j 0 (Vec3 0 0 0) s)))"
        using 1(2) sl by simp
      then show ?thesis using 1(1) True by blast
    next
      case 2
      then obtain i' s' where "i + 1 \<le> i'" "i' < image_width cam" "k = j * image_width cam + i'"
        "c = smul (pixel_samples_scale cam)
             (fst (fst (sample_loop cam rnd world i' j 0 (Vec3 0 0 0) s')))"
        using IH by blast
      moreover from this have "i \<le> i'" by simp
      ultimately show ?thesis by blast
    qed
  next
    case False
    then show ?thesis using "1.prems" by (subst (asm) column_loop.simps) simp
  qed
qed

lemma render_lines_store:
  "Store k c \<in> set (fst (render_lines cam rnd world j end_line s)) \<Longrightarrow>
     \<exists>i' j' s'. j \<le> j' \<and> j' < end_line \<and> 0 \<le> i' \<and> i' < image_width cam \<and>
       k = j' * image_width cam + i' \<and>
       c = smul (pixel_samples_scale cam)
             (fst (fst (sample_loop cam rnd world i' j' 0 (Vec3 0 0 0) s')))"
proof (induction cam rnd world j end_line s rule: render_lines.induct)
  case (1 cam rnd world j end_line s)
  show ?case
  proof (cases "j < end_line")
    case True
    obtain tr s1 where cl: "column_loop cam rnd world j 0 s = (tr, s1)"
      by (metis surj_pair)
    have IH: "Store k c \<in> set (fst (render_lines cam rnd world (j + 1) end_line s1)) \<Longrightarrow>
      \<exists>i' j' s'. j + 1 \<le> j' \<and> j' < end_line \<and> 0 \<le> i' \<and> i' < image_width cam \<and>
       k = j' * image_width cam + i' \<and>
       c = smul (pixel_samples_scale cam)
             (fst (fst (sample_loop cam rnd world i' j' 0 (Vec3 0 0 0) s')))"
      using "1.IH" [OF True cl [symmetric]] .
    have "Store k c \<in> set (Decrement j # tr @ fst (render_lines cam rnd world (j + 1) end_line s1))"
      using "1.prems" True cl by (subst (asm) render_lines.simps) (simp add: split_beta)
    then consider "Store k c \<in> set (fst (column_loop cam rnd world j 0 s))"
      | "Store k c \<in> set (fst (render_lines cam rnd world (j + 1) end_line s1))"
      using cl by auto
    then show ?thesis
    proof cases
      case 1
      then obtain i' s' where "0 \<le> i'" "i' < image_width cam" "k = j * image_width cam + i'"
        "c = smul (pixel_samples_scale cam)
             (fst (fst (sample_loop cam rnd world i' j 0 (Vec3 0 0 0) s')))"
        using column_loop_store [of k c cam rnd world j 0 s] by blast
      then show ?thesis using True by blast
    next
      case 2
      then obtain i' j' s' where "j + 1 \<le> j'" "j' < end_line" "0 \<le> i'" "i' < image_width cam"
        "k = j' * image_width cam + i'"
        "c = smul (pixel_samples_scale cam)
             (fst (fst (sample_loop cam rnd world i' j' 0 (Vec3 0 0 0) s')))"
        using IH by blast
      moreover from this have "j \<le> j'" by simp
      ultimately show ?thesis by blast
    qed
  next
    case False
    then show ?thesis using "1.prems" by (subst (asm) render_lines.simps) simp
  qed
qed

lemma vec3_add_zero: "a + Vec3 0 0 0 = (a :: vec3)"
  by (cases a) (simp add: plus_vec3_def)

lemma smul_zero: "smul t (Vec3 0 0 0) = Vec3 0 0 0"
  by (simp add: smul_def)

lemma sample_loop_floor:
  "max_depth cam \<le> 0 \<Longrightarrow>
     fst (sample_loop cam rnd world i j sample pixel_color s) = (pixel_color, [])"
proof (induction cam rnd world i j sample pixel_color s rule: sample_loop.induct)
  case (1 cam rnd world i j sample pixel_color s)
  show ?case
  proof (cases "sample < samples_per_pixel cam")
    case True
    obtain r s1 where g: "get_ray cam rnd i j s = (r, s1)" by (cases "get_ray cam rnd i j s")
    have rc: "ray_color r (max_depth cam) world s1 = ((Vec3 0 0 0, []), s1)"
      using "1.prems" by (rule ray_color_floor)
    have "fst (sample_loop cam rnd world i j (sample + 1) (pixel_color + Vec3 0 0 0) s1)
            = (pixel_color + Vec3 0 0 0, [])"
      using "1.IH" [OF True g [symmetric] rc [symmetric] refl "1.prems"] by simp
    then show ?thesis
      using True g rc
      by (subst sample_loop.simps) (simp add: split_beta vec3_add_zero)
  next
    case False
    then show ?thesis by (subst sample_loop.simps) simp
  qed
qed

lemma column_loop_floor:
  "max_depth cam \<le> 0 \<Longrightarrow> Store k c \<in> set (fst (column_loop cam rnd world j i s)) \<Longrightarrow>
     c = Vec3 0 0 0"
proof (induction cam rnd world j i s rule: column_loop.induct)
  case (1 cam rnd world j i s)
  show ?case
  proof (cases "i < image_width cam")
    case True
    obtain pc tr s1 where sl: "sample_loop cam rnd world i j 0 (Vec3 0 0 0) s = ((pc, tr), s1)"
      by (metis surj_pair)
    have pc: "pc = Vec3 0 0 0" "tr = []"
      using sample_loop_floor [OF "1.prems"(1), of rnd world i j 0 "Vec3 0 0 0" s] sl by simp_all
    have IH: "Store k c \<in> set (fst (column_loop cam rnd world j (i + 1) s1)) \<Longrightarrow> c = Vec3 0 0 0"
      using "1.IH" [OF True sl [symmetric] refl "1.prems"(1)] by simp
    show ?thesis
      using "1.prems"(2) True sl pc IH
      by (subst (asm) column_loop.simps) (auto simp: split_beta smul_zero)
  next
    case False
    then show ?thesis using "1.prems"(2) by (subst (asm) column_loop.simps) simp
  qed
qed

lemma render_lines_floor:
  "max_depth cam \<le> 0 \<Longrightarrow> Store k c \<in> set (fst (render_lines cam rnd world j end_line s)) \<Longrightarrow>
     c = Vec3 0 0 0"
proof (induction cam rnd world j end_line s rule: render_lines.induct)
  case (1 cam rnd world j end_line s)
  show ?case
  proof (cases "j < end_line")
    case True
    obtain tr s1 where cl: "column_loop cam rnd world j 0 s = (tr, s1)"
      by (metis surj_pair)
    have row: "Store k c \<in> set tr \<Longrightarrow> c = Vec3 0 0 0"
      using column_loop_floor [OF "1.prems"(1), of k c rnd world j 0 s] cl by simp
    have IH: "Store k c \<in> set (fst (render_lines cam rnd world (j + 1) end_line s1)) \<Longrightarrow>
                c = Vec3 0 0 0"
      using "1.IH" [OF True cl [symmetric] "1.prems"(1)] by simp
    show ?thesis
      using "1.prems"(2) True cl row IH
      by (subst (asm) render_lines.simps) (auto simp: split_beta)
  next
    case False
    then show ?thesis using "1.prems"(2) by (subst (asm) render_lines.simps) simp
  qed
qed

section \<open>Interleavings\<close>

lemma set_interleavings:
  "tr \<in> interleavings xss \<Longrightarrow> set tr = (\<Union>xs \<in> set xss. set xs)"
proof (induction xss arbitrary: tr)
  case Nil
  then show ?case by simp
next
  case (Cons xs xss)
  then obtain ys where ys: "ys \<in> interleavings xss" "tr \<in> shuffles xs ys" by auto
  then show ?case using Cons.IH [OF ys(1)] set_shuffles [OF ys(2)] by simp
qed

lemma shuffles_map_filter:
  "zs \<in> shuffles xs ys \<Longrightarrow>
     List.map_filter f zs \<in> shuffles (List.map_filter f xs) (List.map_filter f ys)"
proof (induction xs ys arbitrary: zs rule: shuffles.induct)
  case (1 ys)
  then show ?case by simp
next
  case (2 xs)
  then show ?case by simp
next
  case (3 x xs y ys)
  from "3.prems" consider
      zs' where "zs = x # zs'" "zs' \<in> shuffles xs (y # ys)"
    | zs' where "zs = y # zs'" "zs' \<in> shuffles (x # xs) ys"
    by auto
  then show ?case
  proof cases
    case 1
    have "List.map_filter f zs' \<in> shuffles (List.map_filter f xs) (List.map_filter f (y # ys))"
      using "3.IH"(1) [OF 1(2)] .
    then show ?thesis
      using 1(1) by (cases "f x") (simp_all add: Cons_in_shuffles_leftI)
  next
    case 2
    have "List.map_filter f zs' \<in> shuffles (List.map_filter f (x # xs)) (List.map_filter f ys)"
      using "3.IH"(2) [OF 2(2)] .
    then show ?thesis
      using 2(1) by (cases "f y") (simp_all add: Cons_in_shuffles_rightI)
  qed
qed

lemma interleavings_map_filter:
  "tr \<in> interleavings xss \<Longrightarrow>
     List.map_filter f tr \<in> interleavings (map (List.map_filter f) xss)"
proof (induction xss arbitrary: tr)
  case Nil
  then show ?case by simp
next
  case (Cons xs xss)
  then obtain ys where ys: "ys \<in> interleavings xss" "tr \<in> shuffles xs ys" by auto
  show ?case
    using Cons.IH [OF ys(1)] shuffles_map_filter [OF ys(2), of f] by auto
qed

lemma interleavings_distinct:
  assumes "tr \<in> interleavings xss"
    and "\<forall>xs \<in> set xss. distinct xs"
    and "\<forall>a < length xss. \<forall>b < length xss. a < b \<longrightarrow> set (xss ! a) \<inter> set (xss ! b) = {}"
  shows "distinct tr"
  using assms
proof (induction xss arbitrary: tr)
  case Nil
  then show ?case by simp
next
  case (Cons xs xss)
  then obtain ys where ys: "ys \<in> interleavings xss" "tr \<in> shuffles xs ys" by auto
  have d: "\<forall>a < length xss. \<forall>b < length xss. a < b \<longrightarrow> set (xss ! a) \<inter> set (xss ! b) = {}"
  proof (intro allI impI)
    fix a b assume "a < length xss" "b < length xss" "a < b"
    then show "set (xss ! a) \<inter> set (xss ! b) = {}"
      using Cons.prems(3) [rule_format, of "Suc a" "Suc b"] by simp
  qed
  have dys: "distinct ys" using Cons.IH [OF ys(1) _ d] Cons.prems(2) by simp
  have "set xs \<inter> set zs = {}" if zs: "zs \<in> set xss" for zs
  proof -
    obtain b where "b < length xss" "xss ! b = zs" using zs by (auto simp: in_set_conv_nth)
    then show ?thesis using Cons.prems(3) [rule_format, of 0 "Suc b"] by simp
  qed
  then have dj: "set xs \<inter> set ys = {}" unfolding set_interleavings [OF ys(1)] by blast
  have dxs: "distinct xs" using Cons.prems(2) by simp
  show ?case by (rule distinct_disjoint_shuffles [OF dxs dys dj ys(2)])
qed

lemma map_filter_tagged:
  "List.map_filter (f \<circ> snd) (map (Pair t) xs) = List.map_filter f xs"
  by (induction xs) (simp_all split: option.splits)

lemma map_filter_snd:
  "List.map_filter f (map snd tr) = List.map_filter (f \<circ> snd) tr"
  by (induction tr) (simp_all split: option.splits)

lemma interleavings_filter_tag:
  fixes f :: "nat \<Rightarrow> 'b list"
  assumes "tr \<in> interleavings (map (\<lambda>t. map (Pair t) (f t)) ts)" "distinct ts"
  shows "filter (\<lambda>e. fst e = t) tr = (if t \<in> set ts then map (Pair t) (f t) else [])"
  using assms
proof (induction ts arbitrary: tr)
  case Nil
  then show ?case by simp
next
  case (Cons t0 ts)
  let ?P = "\<lambda>e :: nat \<times> 'b. fst e = t"
  from Cons.prems obtain ys where ys: "ys \<in> interleavings (map (\<lambda>t. map (Pair t) (f t)) ts)"
      "tr \<in> shuffles (map (Pair t0) (f t0)) ys" by auto
  have IH: "filter ?P ys = (if t \<in> set ts then map (Pair t) (f t) else [])"
    using Cons.IH [OF ys(1)] Cons.prems(2) by simp
  have "filter ?P tr \<in> filter ?P ` shuffles (map (Pair t0) (f t0)) ys" using ys(2) by (rule imageI)
  then have mem: "filter ?P tr \<in> shuffles (filter ?P (map (Pair t0) (f t0))) (filter ?P ys)"
    by (simp only: filter_shuffles)
  have hd: "filter ?P (map (Pair t0) (f t0)) = (if t = t0 then map (Pair t0) (f t0) else [])"
    by (induction "f t0") (auto simp: filter_map comp_def)
  show ?case
  proof (cases "t = t0")
    case True
    then have "t \<notin> set ts" using Cons.prems(2) by simp
    then show ?thesis using mem hd IH True by simp
  next
    case False
    then show ?thesis using mem hd IH by simp
  qed
qed

section \<open>Runs of the workers\<close>

lemma unat_of_nat_worker:
  fixes T :: "32 word"
  assumes "t < unat T"
  shows "unat (of_nat t :: 32 word) = t"
proof -
  have "unat T < 2 ^ 32" using unsigned_less [of T, where 'a = nat] by simp
  then have "t < 2 ^ 32" using assms by simp
  then show ?thesis by (simp add: unat_of_nat)
qed

lemma worker_word_less:
  fixes T :: "32 word"
  assumes "t < unat T"
  shows "(of_nat t :: 32 word) < T"
  using assms by (simp add: word_less_nat_alt unat_of_nat_worker)

lemma worker_word_mono:
  fixes T :: "32 word"
  assumes "a < b" "b < unat T"
  shows "(of_nat a :: 32 word) < of_nat b"
proof -
  have a: "a < unat T" using assms by simp
  show ?thesis
    using assms(1)
    by (simp add: word_less_nat_alt unat_of_nat_worker [OF a] unat_of_nat_worker [OF assms(2)])
qed

lemma worker_ids_cover:
  fixes T :: "32 word"
  shows "(\<Union>t \<in> {0 ..< unat T}. f (of_nat t :: 32 word)) = (\<Union>a \<in> {a. a < T}. f a)"
proof (intro equalityI subsetI)
  fix x assume "x \<in> (\<Union>t \<in> {0 ..< unat T}. f (of_nat t :: 32 word))"
  then obtain t where "t < unat T" "x \<in> f (of_nat t :: 32 word)" by auto
  then show "x \<in> (\<Union>a \<in> {a. a < T}. f a)" using worker_word_less [of t T] by blast
next
  fix x assume "x \<in> (\<Union>a \<in> {a. a < T}. f a)"
  then obtain a where a: "a < T" "x \<in> f a" by auto
  have lt: "unat a \<in> {0 ..< unat T}" using a(1) by (simp add: word_less_nat_alt)
  have "x \<in> f (of_nat (unat a) :: 32 word)" using a(2) by simp
  then show "x \<in> (\<Union>t \<in> {0 ..< unat T}. f (of_nat t :: 32 word))"
    using lt by (rule UN_I [rotated])
qed

lemma worker_traces_alt:
  "worker_traces cam rnd world T seeds =
     map (\<lambda>t. map (Pair t)
                 (fst (render_lines cam rnd world
                         (fst (thread_range (image_height cam) T (of_nat t)))
                         (snd (thread_range (image_height cam) T (of_nat t))) (seeds t))))
         [0 ..< unat T]"
  by (simp add: worker_traces_def split_beta)

lemma worker_traces_event:
  assumes "tr \<in> interleavings (worker_traces cam rnd world n seeds)" "(t, e) \<in> set tr"
  shows "t < unat n \<and>
         e \<in> set (fst (render_lines cam rnd world
                          (fst (thread_range (image_height cam) n (of_nat t)))
                          (snd (thread_range (image_height cam) n (of_nat t))) (seeds t)))"
  using assms(2) unfolding set_interleavings [OF assms(1)]
  by (auto simp: worker_traces_def split_beta)

lemma worker_traces_dec_rows:
  "map (List.map_filter (dec_row \<circ> snd)) (worker_traces cam rnd world T seeds) =
     map (\<lambda>t. [fst (thread_range (image_height cam) T (of_nat t)) ..
                snd (thread_range (image_height cam) T (of_nat t)) - 1]) [0 ..< unat T]"
  by (simp add: worker_traces_def split_beta map_filter_tagged dec_rows_def [symmetric]
        render_lines_dec_rows)

lemma worker_traces_store_indices:
  assumes "0 \<le> image_width cam"
  shows "map (List.map_filter (store_index \<circ> snd)) (worker_traces cam rnd world T seeds) =
           map (\<lambda>t. [fst (thread_range (image_height cam) T (of_nat t)) * image_width cam ..
                      snd (thread_range (image_height cam) T (of_nat t)) * image_width cam - 1])
               [0 ..< unat T]"
  by (simp add: worker_traces_def split_beta map_filter_tagged store_indices_def [symmetric]
        render_lines_projections [OF assms])

lemma atLeastAtMost_thread_rows:
  "{fst (thread_range H T a) .. snd (thread_range H T a) - 1} = thread_rows H T a"
  by (auto simp: thread_rows_def split_beta)

lemma upto_thread_rows:
  "set [fst (thread_range H T a) .. snd (thread_range H T a) - 1] = thread_rows H T a"
  by (simp add: atLeastAtMost_thread_rows)

lemma num_threads_nonzero: "num_threads hw \<noteq> 0"
  by (simp add: num_threads_def)

lemma run_dec_rows:
  assumes H: "1 \<le> image_height cam" "image_height cam < 2 ^ 31" and T: "T \<noteq> 0"
    and tr: "tr \<in> interleavings (worker_traces cam rnd world T seeds)"
  shows "distinct (dec_rows (map snd tr)) \<and>
         set (dec_rows (map snd tr)) = {0 ..< image_height cam}"
proof -
  let ?H = "image_height cam"
  let ?rows = "\<lambda>t. [fst (thread_range ?H T (of_nat t)) .. snd (thread_range ?H T (of_nat t)) - 1]"
  let ?xss = "map ?rows [0 ..< unat T]"
  have mem: "dec_rows (map snd tr) \<in> interleavings ?xss"
    using interleavings_map_filter [OF tr, of "dec_row \<circ> snd"]
    by (simp add: dec_rows_def map_filter_snd worker_traces_dec_rows)
  have d1: "\<forall>xs \<in> set ?xss. distinct xs" by auto
  have d2: "\<forall>a < length ?xss. \<forall>b < length ?xss. a < b \<longrightarrow> set (?xss ! a) \<inter> set (?xss ! b) = {}"
  proof (intro allI impI)
    fix a b assume ab: "a < length ?xss" "b < length ?xss" "a < b"
    then have b: "b < unat T" and a: "a < unat T" by simp_all
    have dj: "thread_rows ?H T (of_nat a) \<inter> thread_rows ?H T (of_nat b) = {}"
      by (rule thread_rows_disjoint_less [OF H T worker_word_mono [OF ab(3) b] worker_word_less [OF b]])
    have sa: "?xss ! a = ?rows a" using a by simp
    have sb: "?xss ! b = ?rows b" using b by simp
    show "set (?xss ! a) \<inter> set (?xss ! b) = {}"
      unfolding sa sb upto_thread_rows by (rule dj)
  qed
  have "set (dec_rows (map snd tr)) = (\<Union>t \<in> {0 ..< unat T}. thread_rows ?H T (of_nat t))"
    unfolding set_interleavings [OF mem] by (simp add: atLeastAtMost_thread_rows)
  also have "\<dots> = (\<Union>a \<in> {a. a < T}. thread_rows ?H T a)" by (rule worker_ids_cover)
  also have "\<dots> = {0 ..< ?H}" using thread_rows_union [OF H T] by simp
  finally show ?thesis using interleavings_distinct [OF mem d1 d2] by simp
qed

lemma run_store_indices:
  assumes W: "0 \<le> image_width cam"
    and H: "1 \<le> image_height cam" "image_height cam < 2 ^ 31" and T: "T \<noteq> 0"
    and tr: "tr \<in> interleavings (worker_traces cam rnd world T seeds)"
  shows "distinct (store_indices (map snd tr)) \<and>
         set (store_indices (map snd tr)) = {0 ..< image_width cam * image_height cam}"
proof -
  let ?H = "image_height cam"
  let ?W = "image_width cam"
  let ?ixs = "\<lambda>t. [fst (thread_range ?H T (of_nat t)) * ?W ..
                   snd (thread_range ?H T (of_nat t)) * ?W - 1]"
  let ?xss = "map ?ixs [0 ..< unat T]"
  have mem: "store_indices (map snd tr) \<in> interleavings ?xss"
    using interleavings_map_filter [OF tr, of "store_index \<circ> snd"]
    by (simp add: store_indices_def map_filter_snd worker_traces_store_indices [OF W])
  show ?thesis
  proof (cases "?W = 0")
    case True
    have "set (store_indices (map snd tr)) = {}"
      unfolding set_interleavings [OF mem] by (simp add: True)
    then show ?thesis by (simp add: True)
  next
    case False
    then have Wp: "0 < ?W" using W by simp
    have ix: "set (?ixs t) = {k. k div ?W \<in> thread_rows ?H T (of_nat t)}" for t
      using index_set_rows [OF Wp] by (simp add: thread_rows_def split_beta)
    have d1: "\<forall>xs \<in> set ?xss. distinct xs" by auto
    have d2: "\<forall>a < length ?xss. \<forall>b < length ?xss. a < b \<longrightarrow> set (?xss ! a) \<inter> set (?xss ! b) = {}"
    proof (intro allI impI)
      fix a b assume ab: "a < length ?xss" "b < length ?xss" "a < b"
      then have b: "b < unat T" and a: "a < unat T" by simp_all
      have dj: "thread_rows ?H T (of_nat a) \<inter> thread_rows ?H T (of_nat b) = {}"
        by (rule thread_rows_disjoint_less [OF H T worker_word_mono [OF ab(3) b] worker_word_less [OF b]])
      have sa: "?xss ! a = ?ixs a" using a by simp
      have sb: "?xss ! b = ?ixs b" using b by simp
      show "set (?xss ! a) \<inter> set (?xss ! b) = {}"
        unfolding sa sb ix using dj by blast
    qed
    have "set (store_indices (map snd tr)) = (\<Union>t \<in> {0 ..< unat T}. set (?ixs t))"
      unfolding set_interleavings [OF mem] by simp
    also have "\<dots> = {k. k div ?W \<in> (\<Union>t \<in> {0 ..< unat T}. thread_rows ?H T (of_nat t))}"
      unfolding ix by blast
    also have "(\<Union>t \<in> {0 ..< unat T}. thread_rows ?H T (of_nat t)) =
                 (\<Union>a \<in> {a. a < T}. thread_rows ?H T a)" by (rule worker_ids_cover)
    also have "\<dots> = {0 ..< ?H}" using thread_rows_union [OF H T] by simp
    also have "{k. k div ?W \<in> {0 ..< ?H}} = {0 * ?W .. ?H * ?W - 1}"
      using index_set_rows [OF Wp, of 0 ?H] by simp
    also have "\<dots> = {0 ..< ?W * ?H}" by (auto simp: mult.commute)
    finally show ?thesis using interleavings_distinct [OF mem d1 d2] by simp
  qed
qed

lemma run_dec_count:
  assumes H: "image_height (initialize cam0) < 2 ^ 31"
    and tr: "tr \<in> interleavings (worker_traces (initialize cam0) rnd world (num_threads hw) seeds)"
  shows "distinct (dec_rows (map snd tr))"
    and "set (dec_rows (map snd tr)) = {0 ..< image_height (initialize cam0)}"
    and "int (length (dec_rows (map snd tr))) = image_height (initialize cam0)"
proof -
  have r: "distinct (dec_rows (map snd tr)) \<and>
           set (dec_rows (map snd tr)) = {0 ..< image_height (initialize cam0)}"
    by (rule run_dec_rows [OF initialize_height H num_threads_nonzero tr])
  then show "distinct (dec_rows (map snd tr))"
    and "set (dec_rows (map snd tr)) = {0 ..< image_height (initialize cam0)}" by simp_all
  have d: "distinct (dec_rows (map snd tr))" using r by simp
  have "card (set (dec_rows (map snd tr))) = length (dec_rows (map snd tr))"
    using d by (rule distinct_card)
  moreover have "card (set (dec_rows (map snd tr))) = nat (image_height (initialize cam0))"
    using r by simp
  ultimately show "int (length (dec_rows (map snd tr))) = image_height (initialize cam0)"
    using initialize_height [of cam0] by simp
qed

lemma run_worker_projection:
  assumes tr: "tr \<in> interleavings (worker_traces cam rnd world T seeds)"
    and t: "t < unat T"
  shows "map snd (filter (\<lambda>e. fst e = t) tr) =
           fst (render_lines cam rnd world
                  (fst (thread_range (image_height cam) T (of_nat t)))
                  (snd (thread_range (image_height cam) T (of_nat t))) (seeds t))"
proof -
  let ?g = "\<lambda>t. fst (render_lines cam rnd world
                         (fst (thread_range (image_height cam) T (of_nat t)))
                         (snd (thread_range (image_height cam) T (of_nat t))) (seeds t))"
  let ?P = "\<lambda>e :: nat \<times> event. fst e = t"
  have f: "filter ?P tr = (if t \<in> set [0 ..< unat T] then map (Pair t) (?g t) else [])"
    using tr unfolding worker_traces_alt by (rule interleavings_filter_tag) simp
  then have "filter ?P tr = map (Pair t) (?g t)" using t by simp
  then show ?thesis by (simp add: comp_def)
qed

lemma run_dec_first:
  assumes tr: "tr \<in> interleavings (worker_traces cam rnd world T seeds)"
    and split: "tr = pre @ (t, Store k c) # post"
  shows "(t, Decrement (k div image_width cam)) \<in> set pre"
proof -
  let ?g = "\<lambda>t. fst (render_lines cam rnd world
                         (fst (thread_range (image_height cam) T (of_nat t)))
                         (snd (thread_range (image_height cam) T (of_nat t))) (seeds t))"
  let ?P = "\<lambda>e :: nat \<times> event. fst e = t"
  have f: "filter ?P tr = (if t \<in> set [0 ..< unat T] then map (Pair t) (?g t) else [])"
    using tr unfolding worker_traces_alt by (rule interleavings_filter_tag) simp
  have f2: "filter ?P tr = filter ?P pre @ (t, Store k c) # filter ?P post"
    using split by simp
  have "map (Pair t) (?g t) = filter ?P pre @ (t, Store k c) # filter ?P post"
    using f f2 by (auto split: if_splits)
  then have "map snd (map (Pair t) (?g t)) =
               map snd (filter ?P pre) @ Store k c # map snd (filter ?P post)"
    by simp
  then have "?g t = map snd (filter ?P pre) @ Store k c # map snd (filter ?P post)"
    by (simp add: comp_def)
  then have "Decrement (k div image_width cam) \<in> set (map snd (filter ?P pre))"
    by (rule render_lines_dec_first)
  then obtain e where e: "e \<in> set pre" "fst e = t" "snd e = Decrement (k div image_width cam)"
    by auto
  have "e = (fst e, snd e)" by simp
  then have "e = (t, Decrement (k div image_width cam))" using e(2,3) by simp
  then show ?thesis using e(1) by simp
qed

lemma run_decrement_worker:
  assumes tr: "tr \<in> interleavings (worker_traces cam rnd world T seeds)"
    and ev: "(t, Decrement j) \<in> set tr"
  shows "t < unat T \<and> j \<in> thread_rows (image_height cam) T (of_nat t)"
proof -
  have t: "t < unat T" and e: "Decrement j \<in> set (fst (render_lines cam rnd world
                          (fst (thread_range (image_height cam) T (of_nat t)))
                          (snd (thread_range (image_height cam) T (of_nat t))) (seeds t)))"
    using worker_traces_event [OF tr ev] by simp_all
  have "j \<in> set [fst (thread_range (image_height cam) T (of_nat t)) ..
                  snd (thread_range (image_height cam) T (of_nat t)) - 1]"
    using e unfolding dec_in_rows render_lines_dec_rows .
  then show ?thesis using t by (simp add: atLeastAtMost_thread_rows)
qed

lemma run_store_event:
  assumes tr: "tr \<in> interleavings (worker_traces cam rnd world T seeds)"
    and H: "1 \<le> image_height cam" "image_height cam < 2 ^ 31" and T: "T \<noteq> 0"
    and ev: "(t, Store k c) \<in> set tr"
  shows "\<exists>i j s'. 0 \<le> i \<and> i < image_width cam \<and> 0 \<le> j \<and> j < image_height cam \<and>
           k = j * image_width cam + i \<and>
           c = smul (pixel_samples_scale cam)
                 (fst (fst (sample_loop cam rnd world i j 0 (Vec3 0 0 0) s')))"
proof -
  let ?a = "fst (thread_range (image_height cam) T (of_nat t))"
  let ?b = "snd (thread_range (image_height cam) T (of_nat t))"
  have t: "t < unat T" and e: "Store k c \<in> set (fst (render_lines cam rnd world ?a ?b (seeds t)))"
    using worker_traces_event [OF tr ev] by simp_all
  obtain i j s' where ij: "?a \<le> j" "j < ?b" "0 \<le> i" "i < image_width cam"
      "k = j * image_width cam + i"
      "c = smul (pixel_samples_scale cam)
             (fst (fst (sample_loop cam rnd world i j 0 (Vec3 0 0 0) s')))"
    using render_lines_store [OF e] by blast
  have "j \<in> thread_rows (image_height cam) T (of_nat t)"
    using ij(1,2) by (simp add: thread_rows_def split_beta)
  then have "j \<in> {0 ..< image_height cam}"
    using thread_rows_bounds [OF H T worker_word_less [OF t]] by blast
  then show ?thesis using ij by auto
qed

lemma counter_after:
  "scanlines_remaining (foldl step st evs) =
     scanlines_remaining st - int (length (dec_rows evs))"
proof (induction evs arbitrary: st)
  case Nil
  then show ?case by (simp add: dec_rows_simps)
next
  case (Cons e evs)
  show ?case
    by (cases e) (simp_all add: Cons.IH dec_rows_simps Let_def)
qed

lemma dec_rows_take_length:
  "length (dec_rows (take n evs)) \<le> length (dec_rows evs)"
proof -
  have "dec_rows evs = dec_rows (take n evs) @ dec_rows (drop n evs)"
    using dec_rows_simps(5) [of "take n evs" "drop n evs"] by simp
  then show ?thesis by simp
qed

lemma dec_rows_take_Suc:
  "length (dec_rows (take n evs)) \<le> length (dec_rows (take (Suc n) evs))"
  using dec_rows_take_length [of n "take (Suc n) evs"] by (simp add: min_def)

lemma buffer_length:
  "length (image_buffer (foldl step st evs)) = length (image_buffer st)"
proof (induction evs arbitrary: st)
  case Nil
  then show ?case by simp
next
  case (Cons e evs)
  show ?case by (cases e) (simp_all add: Cons.IH Let_def)
qed

lemma buffer_unchanged:
  "k \<notin> set (store_indices evs) \<Longrightarrow> 0 \<le> k \<Longrightarrow>
     image_buffer (foldl step st evs) ! nat k = image_buffer st ! nat k"
proof (induction evs arbitrary: st)
  case Nil
  then show ?case by simp
next
  case (Cons e evs)
  show ?case
  proof (cases e)
    case (HitQuery r iv)
    then show ?thesis using Cons by (simp add: store_indices_simps)
  next
    case (Decrement j)
    then show ?thesis using Cons by (simp add: store_indices_simps Let_def)
  next
    case (Store k' c')
    then have ne: "k' \<noteq> k" and rest: "k \<notin> set (store_indices evs)"
      using Cons.prems(1) by (auto simp: store_indices_simps)
    have "image_buffer (step st e) ! nat k = image_buffer st ! nat k"
      using ne Cons.prems(2) Store by (auto simp: nat_eq_iff)
    then show ?thesis using Cons.IH [OF rest Cons.prems(2), of "step st e"] by simp
  qed
qed

lemma buffer_store:
  assumes "0 \<le> k" "k < int (length (image_buffer st))" "k \<notin> set (store_indices post)"
  shows "image_buffer (foldl step st (pre @ Store k c # post)) ! nat k = c"
proof -
  let ?st = "foldl step st pre"
  have len: "k < int (length (image_buffer ?st))" using assms(2) by (simp add: buffer_length)
  have "image_buffer (foldl step st (pre @ Store k c # post)) ! nat k =
          image_buffer (step ?st (Store k c)) ! nat k"
    using buffer_unchanged [OF assms(3) assms(1), of "step ?st (Store k c)"] by simp
  also have "\<dots> = c" using assms(1) len by simp
  finally show ?thesis .
qed

lemma run_buffer_at:
  assumes d: "distinct (store_indices (map snd tr))"
    and ev: "(t, Store k c) \<in> set tr"
    and k: "0 \<le> k" "k < int (length (image_buffer st))"
  shows "image_buffer (foldl step st (map snd tr)) ! nat k = c"
proof -
  obtain pre post where sp: "tr = pre @ (t, Store k c) # post"
    using ev by (auto simp: in_set_conv_decomp)
  have "store_indices (map snd tr) =
          store_indices (map snd pre) @ k # store_indices (map snd post)"
    by (simp add: sp store_indices_simps)
  then have "k \<notin> set (store_indices (map snd post))" using d by simp
  then show ?thesis
    using buffer_store [OF k, of "map snd post" "map snd pre" c] by (simp add: sp)
qed

section \<open>Runs of \<^verbatim>\<open>render\<close>\<close>

lemma write_color_append: "write_color out c = out @ write_color [] c"
  by (simp add: write_color_def Let_def)

lemma write_color_line: "\<exists>a b c. write_color [] col = [PixelLine a b c]"
  by (simp add: write_color_def Let_def)

lemma foldl_write_color:
  "foldl write_color out buf = out @ concat (map (write_color []) buf)"
proof (induction buf arbitrary: out)
  case Nil
  then show ?case by simp
next
  case (Cons c buf)
  show ?case using write_color_append [of out c] by (simp add: Cons.IH)
qed

lemma pixel_lines:
  "x \<in> set (map Cout (foldl write_color [] buf)) \<Longrightarrow> \<exists>a b c. x = Cout (PixelLine a b c)"
proof -
  assume "x \<in> set (map Cout (foldl write_color [] buf))"
  then obtain col where "col \<in> set buf" "x \<in> Cout ` set (write_color [] col)"
    by (auto simp: foldl_write_color)
  then show ?thesis using write_color_line [of col] by auto
qed

lemma render_worker_event:
  assumes "run \<in> render cam0 rnd world hw seeds" "Worker t e \<in> set run"
  shows "\<exists>tr \<in> interleavings (worker_traces (initialize cam0) rnd world (num_threads hw) seeds).
           (t, e) \<in> set tr"
  using assms by (auto simp: render_def Let_def split: if_splits)

lemma render_run:
  assumes "run \<in> render cam0 rnd world hw seeds"
    and "0 \<le> image_width (initialize cam0)"
  shows "\<exists>tr \<in> interleavings (worker_traces (initialize cam0) rnd world (num_threads hw) seeds).
           run = [Cout (Header (image_width (initialize cam0)) (image_height (initialize cam0)))]
                 @ map (\<lambda>(t, e). Worker t e) tr @ [AllJoined, Clog Done]
                 @ map Cout (foldl write_color []
                     (image_buffer (foldl step (initial_shared (initialize cam0)) (map snd tr))))"
proof -
  have "0 \<le> image_width (initialize cam0) * image_height (initialize cam0)"
    using assms(2) initialize_height [of cam0] by simp
  then show ?thesis using assms(1) by (auto simp: render_def Let_def)
qed

lemma run_shape:
  assumes run: "run = h # map (\<lambda>(t, e). Worker t e) tr @ [AllJoined, Clog Done] @ ls"
    and ls: "\<forall>x \<in> set ls. \<exists>a b c. x = Cout (PixelLine a b c)"
    and split: "run = pre @ Cout item # post"
  shows "(pre = [] \<and> Cout item = h) \<or>
         (AllJoined \<in> set pre \<and> (\<exists>a b c. item = PixelLine a b c) \<and> (\<forall>t e. Worker t e \<notin> set post))"
proof (cases pre)
  case Nil
  then show ?thesis using run split by simp
next
  case (Cons p pre')
  let ?ws = "map (\<lambda>(t, e). Worker t e) tr"
  have ws: "\<forall>x \<in> set ?ws. \<exists>t e. x = Worker t e" by auto
  have eq: "?ws @ (AllJoined # Clog Done # ls) = pre' @ Cout item # post"
    using run split Cons by simp
  then consider
      us where "?ws = pre' @ us" "us @ (AllJoined # Clog Done # ls) = Cout item # post"
    | us where "?ws @ us = pre'" "AllJoined # Clog Done # ls = us @ Cout item # post"
    by (auto simp: append_eq_append_conv2)
  then show ?thesis
  proof cases
    case 1
    show ?thesis
    proof (cases us)
      case Nil
      then show ?thesis using 1(2) by simp
    next
      case (Cons x us')
      then have "Cout item \<in> set ?ws" using 1 by auto
      then show ?thesis using ws by blast
    qed
  next
    case 2
    from 2(2) obtain us1 where us1: "us = AllJoined # us1" "Clog Done # ls = us1 @ Cout item # post"
      by (cases us) auto
    from us1(2) obtain us2 where us2: "us1 = Clog Done # us2" "ls = us2 @ Cout item # post"
      by (cases us1) auto
    have j: "AllJoined \<in> set pre" using 2(1) us1(1) Cons by auto
    have "Cout item \<in> set ls" using us2(2) by simp
    then have i: "\<exists>a b c. item = PixelLine a b c" using ls by blast
    have "set post \<subseteq> set ls" using us2(2) by auto
    then have "\<forall>t e. Worker t e \<notin> set post" using ls by blast
    then show ?thesis using j i by blast
  qed
qed

lemma demo_initialize:
  "image_width (initialize (demo_camera d)) = 2"
  "image_height (initialize (demo_camera d)) = 1"
  "samples_per_pixel (initialize (demo_camera d)) = 1"
  "max_depth (initialize (demo_camera d)) = d"
  "pixel_samples_scale (initialize (demo_camera d)) = 1"
  by (simp_all add: initialize_def demo_camera_def Let_def int_of_double_def)

lemma demo_range: "thread_range 1 1 0 = (0, 1)"
  by (simp add: thread_range_def)

lemma demo_lines:
  "fst (render_lines (initialize (demo_camera 0)) demo_random demo_world 0 1 s) =
     [Decrement 0, Store 0 (Vec3 0 0 0), Store 1 (Vec3 0 0 0)]"
  by (simp add: render_lines.simps column_loop.simps sample_loop.simps ray_color.simps
        demo_initialize split_beta smul_def plus_vec3_def)

lemma demo_workers:
  "worker_traces (initialize (demo_camera 0)) demo_random demo_world 1 (\<lambda>t. 0) =
     [[(0, Decrement 0), (0, Store 0 (Vec3 0 0 0)), (0, Store 1 (Vec3 0 0 0))]]"
  by (simp add: worker_traces_def demo_initialize demo_range demo_lines)

lemma demo_interleavings:
  "interleavings (worker_traces (initialize (demo_camera 0)) demo_random demo_world
      (num_threads 1) (\<lambda>t. 0)) =
     {[(0, Decrement 0), (0, Store 0 (Vec3 0 0 0)), (0, Store 1 (Vec3 0 0 0))]}"
  by (simp add: num_threads_def demo_workers)

lemma demo_render:
  "render (demo_camera 0) demo_random demo_world 1 (\<lambda>t. 0) =
     {[Cout (Header 2 1), Worker 0 (Decrement 0), Worker 0 (Store 0 (Vec3 0 0 0)),
       Worker 0 (Store 1 (Vec3 0 0 0)), AllJoined, Clog Done,
       Cout (PixelLine 0 0 0), Cout (PixelLine 0 0 0)]}"
  by (simp add: render_def Let_def demo_initialize demo_workers num_threads_def
        initial_shared_def write_color_def clamp_def int_of_double_def eval_nat_numeral)

lemma square_initialize:
  "image_width (initialize square_camera) = 2"
  "image_height (initialize square_camera) = 2"
  "samples_per_pixel (initialize square_camera) = 1"
  "max_depth (initialize square_camera) = 0"
  "pixel_samples_scale (initialize square_camera) = 1"
  by (simp_all add: initialize_def square_camera_def demo_camera_def Let_def int_of_double_def)

lemma square_ranges: "thread_range 2 2 0 = (0, 1)" "thread_range 2 2 1 = (1, 2)"
  by (simp_all add: thread_range_def)

lemma square_lines:
  "fst (render_lines (initialize square_camera) demo_random demo_world 0 1 s) =
     [Decrement 0, Store 0 (Vec3 0 0 0), Store 1 (Vec3 0 0 0)]"
  "fst (render_lines (initialize square_camera) demo_random demo_world 1 2 s) =
     [Decrement 1, Store 2 (Vec3 0 0 0), Store 3 (Vec3 0 0 0)]"
  by (simp_all add: render_lines.simps column_loop.simps sample_loop.simps ray_color.simps
        square_initialize split_beta smul_def plus_vec3_def)

lemma square_workers:
  "worker_traces (initialize square_camera) demo_random demo_world 2 (\<lambda>t. 0) =
     [[(0, Decrement 0), (0, Store 0 (Vec3 0 0 0)), (0, Store 1 (Vec3 0 0 0))],
      [(1, Decrement 1), (1, Store 2 (Vec3 0 0 0)), (1, Store 3 (Vec3 0 0 0))]]"
proof -
  have l: "[0 ..< unat (2 :: 32 word)] = [0, 1]" by (simp add: upt_rec)
  show ?thesis
    unfolding worker_traces_def l by (simp add: square_initialize square_ranges square_lines)
qed

lemma square_run:
  "[(1, Decrement 1), (0, Decrement 0), (0, Store 0 (Vec3 0 0 0)), (1, Store 2 (Vec3 0 0 0)),
    (0, Store 1 (Vec3 0 0 0)), (1, Store 3 (Vec3 0 0 0))]
   \<in> interleavings (worker_traces (initialize square_camera) demo_random demo_world
                      (num_threads 2) (\<lambda>t. 0))"
  by (simp add: num_threads_def square_workers Cons_in_shuffles_iff)

lemma worker_prefix_unique:
  "map (\<lambda>(t, e). Worker t e) tr @ AllJoined # xs =
     map (\<lambda>(t, e). Worker t e) tr' @ AllJoined # ys \<Longrightarrow> tr = tr'"
proof (induction tr arbitrary: tr')
  case Nil
  then show ?case by (cases tr') (auto simp: split_beta)
next
  case (Cons a tr)
  then show ?case by (cases tr') (auto simp: split_beta prod_eq_iff)
qed

lemma square_render:
  "[Cout (Header 2 2), Worker 1 (Decrement 1), Worker 0 (Decrement 0),
    Worker 0 (Store 0 (Vec3 0 0 0)), Worker 1 (Store 2 (Vec3 0 0 0)),
    Worker 0 (Store 1 (Vec3 0 0 0)), Worker 1 (Store 3 (Vec3 0 0 0)), AllJoined, Clog Done,
    Cout (PixelLine 0 0 0), Cout (PixelLine 0 0 0), Cout (PixelLine 0 0 0), Cout (PixelLine 0 0 0)]
   \<in> render square_camera demo_random demo_world 2 (\<lambda>t. 0)"
proof -
  have p: "\<not> image_width (initialize square_camera) * image_height (initialize square_camera) < 0"
    by (simp add: square_initialize)
  show ?thesis
    unfolding render_def Let_def if_not_P [OF p]
    by (rule image_eqI [OF _ square_run])
       (simp add: square_initialize initial_shared_def write_color_def clamp_def
          int_of_double_def eval_nat_numeral)
qed

lemma square_threads:
  "thread_range (image_height (initialize square_camera)) (num_threads 2) (of_nat 1) = (1, 2)"
  "thread_range (image_height (initialize square_camera)) (num_threads 2) (of_nat 0) = (0, 1)"
  "unat (num_threads 2) = 2"
  by (simp_all add: square_initialize num_threads_def square_ranges)

text \<open>
  C2. With a depth budget \<open>depth \<le> 0\<close>, \<^verbatim>\<open>ray_color\<close> returns the colour \<open>(0, 0, 0)\<close>
  (and makes no hit test) for every ray and scene. Hence with \<^verbatim>\<open>max_depth = 0\<close> and at
  least one sample per pixel, every colour a worker stores in the pixel buffer, in every
  run of \<^verbatim>\<open>render\<close>, is \<open>(0, 0, 0)\<close>, whatever the scene.
\<close>

theorem depth_floor_black:
  "(depth \<le> 0 \<longrightarrow> ray_color r depth world s = ((Vec3 0 0 0, []), s)) \<and>
   (max_depth cam0 = 0 \<and> 1 \<le> samples_per_pixel cam0 \<longrightarrow>
      (\<forall>run \<in> render cam0 rnd world hw seeds.
         \<forall>t k c. Worker t (Store k c) \<in> set run \<longrightarrow> c = Vec3 0 0 0))"
proof (intro conjI impI ballI allI)
  assume "depth \<le> 0"
  then show "ray_color r depth world s = ((Vec3 0 0 0, []), s)" by (rule ray_color_floor)
next
  fix run t k c
  assume cfg: "max_depth cam0 = 0 \<and> 1 \<le> samples_per_pixel cam0"
    and run: "run \<in> render cam0 rnd world hw seeds"
    and ev: "Worker t (Store k c) \<in> set run"
  have d: "max_depth (initialize cam0) \<le> 0" using cfg by (simp add: initialize_keeps)
  obtain tr where tr: "tr \<in> interleavings (worker_traces (initialize cam0) rnd world (num_threads hw) seeds)"
      "(t, Store k c) \<in> set tr"
    using render_worker_event [OF run ev] by blast
  have "Store k c \<in> set (fst (render_lines (initialize cam0) rnd world
            (fst (thread_range (image_height (initialize cam0)) (num_threads hw) (of_nat t)))
            (snd (thread_range (image_height (initialize cam0)) (num_threads hw) (of_nat t)))
            (seeds t)))"
    using worker_traces_event [OF tr] by simp
  then show "c = Vec3 0 0 0" by (rule render_lines_floor [OF d])
qed

theorem depth_floor_black_witness:
  "max_depth (demo_camera 0) = 0 \<and> 1 \<le> samples_per_pixel (demo_camera 0) \<and>
   ray_color \<lparr>origin = Vec3 0 0 0, direction = Vec3 0 0 (- 1)\<rparr> 0 demo_world (0 :: nat) =
     ((Vec3 0 0 0, []), 0) \<and>
   render (demo_camera 0) demo_random demo_world 1 (\<lambda>t. 0) =
     {[Cout (Header 2 1), Worker 0 (Decrement 0), Worker 0 (Store 0 (Vec3 0 0 0)),
       Worker 0 (Store 1 (Vec3 0 0 0)), AllJoined, Clog Done,
       Cout (PixelLine 0 0 0), Cout (PixelLine 0 0 0)]}"
proof -
  have cfg: "max_depth (demo_camera 0) = 0" "samples_per_pixel (demo_camera 0) = 1"
    by (simp_all add: demo_camera_def)
  show ?thesis
    using depth_floor_black [of 0 "\<lparr>origin = Vec3 0 0 0, direction = Vec3 0 0 (- 1)\<rparr>"
        demo_world "0 :: nat" "demo_camera 0" demo_random "1" "\<lambda>t. 0"]
    by (simp add: demo_render cfg)
qed

text \<open>
  C7, as the code has it. Take a run of \<^verbatim>\<open>render\<close> with a non-negative width and
  \<open>image_width * image_height\<close> within the range of \<^verbatim>\<open>int\<close>. The counter starts at
  \<^verbatim>\<open>image_height\<close>; every row of \<open>[0, image_height)\<close> has exactly one decrement and no
  other row has any; after any number of steps the counter is \<^verbatim>\<open>image_height\<close> minus the
  number of decrements so far, so it never increases, never goes below zero, and ends at
  zero; the decrement for row \<open>j\<close> is made by the worker whose range holds \<open>j\<close>; and when
  a worker stores a pixel of a row, that same worker has already made the row's
  decrement. More precisely, what a worker does in the run is, for each row of its range
  in increasing order, the decrement for that row and then the column loop of that row,
  started in the state the previous row left: every hit test and every store of a row
  comes after the decrement for that row and before the decrement for the worker's next
  row. The column loop of row \<open>j\<close> makes no decrement and stores to the indices of row
  \<open>j\<close>, in order.
\<close>

theorem counter_decrements:
  assumes run: "run \<in> render cam0 rnd world hw seeds"
    and W: "0 \<le> image_width cam0"
    and WH: "image_width cam0 * image_height (initialize cam0) < 2 ^ 31"
  shows "\<exists>tr \<in> interleavings
                  (worker_traces (initialize cam0) rnd world (num_threads hw) seeds).
         run = [Cout (Header (image_width cam0) (image_height (initialize cam0)))]
               @ map (\<lambda>(t, e). Worker t e) tr @ [AllJoined, Clog Done]
               @ map Cout (foldl write_color []
                   (image_buffer (foldl step (initial_shared (initialize cam0)) (map snd tr)))) \<and>
         scanlines_remaining (initial_shared (initialize cam0)) = image_height (initialize cam0) \<and>
         distinct (dec_rows (map snd tr)) \<and>
         set (dec_rows (map snd tr)) = {0 ..< image_height (initialize cam0)} \<and>
         (\<forall>n. scanlines_remaining (foldl step (initial_shared (initialize cam0)) (map snd (take n tr)))
                = image_height (initialize cam0) - int (length (dec_rows (map snd (take n tr)))) \<and>
              0 \<le> scanlines_remaining
                     (foldl step (initial_shared (initialize cam0)) (map snd (take n tr))) \<and>
              scanlines_remaining
                (foldl step (initial_shared (initialize cam0)) (map snd (take (Suc n) tr)))
              \<le> scanlines_remaining
                   (foldl step (initial_shared (initialize cam0)) (map snd (take n tr)))) \<and>
         scanlines_remaining (foldl step (initial_shared (initialize cam0)) (map snd tr)) = 0 \<and>
         (\<forall>t j. (t, Decrement j) \<in> set tr \<longrightarrow>
            t < unat (num_threads hw) \<and>
            j \<in> thread_rows (image_height (initialize cam0)) (num_threads hw) (of_nat t)) \<and>
         (\<forall>pre t k c post. tr = pre @ (t, Store k c) # post \<longrightarrow>
            (t, Decrement (k div image_width cam0)) \<in> set pre) \<and>
         (\<forall>t < unat (num_threads hw). \<exists>\<sigma>.
            (fst (thread_range (image_height (initialize cam0)) (num_threads hw) (of_nat t))
               < snd (thread_range (image_height (initialize cam0)) (num_threads hw) (of_nat t)) \<longrightarrow>
             \<sigma> (fst (thread_range (image_height (initialize cam0)) (num_threads hw) (of_nat t)))
               = seeds t) \<and>
            (\<forall>j. fst (thread_range (image_height (initialize cam0)) (num_threads hw) (of_nat t)) \<le> j \<and>
                 j + 1 < snd (thread_range (image_height (initialize cam0)) (num_threads hw) (of_nat t)) \<longrightarrow>
               \<sigma> (j + 1) = snd (column_loop (initialize cam0) rnd world j 0 (\<sigma> j))) \<and>
            map snd (filter (\<lambda>e. fst e = t) tr) =
              concat (map (\<lambda>j. Decrement j # fst (column_loop (initialize cam0) rnd world j 0 (\<sigma> j)))
                [fst (thread_range (image_height (initialize cam0)) (num_threads hw) (of_nat t)) ..
                 snd (thread_range (image_height (initialize cam0)) (num_threads hw) (of_nat t)) - 1]) \<and>
            (\<forall>j. dec_rows (fst (column_loop (initialize cam0) rnd world j 0 (\<sigma> j))) = [] \<and>
                 store_indices (fst (column_loop (initialize cam0) rnd world j 0 (\<sigma> j))) =
                   [j * image_width cam0 .. j * image_width cam0 + image_width cam0 - 1]))"
proof -
  let ?cam = "initialize cam0"
  let ?st0 = "initial_shared ?cam"
  let ?H = "image_height ?cam"
  let ?T = "num_threads hw"
  have w: "image_width ?cam = image_width cam0" by (simp add: initialize_keeps)
  have W': "0 \<le> image_width ?cam" using W by (simp add: w)
  have H: "?H < 2 ^ 31" using W WH by (rule height_of_product)
  obtain tr where tr: "tr \<in> interleavings (worker_traces ?cam rnd world ?T seeds)"
    and r: "run = [Cout (Header (image_width ?cam) ?H)]
                 @ map (\<lambda>(t, e). Worker t e) tr @ [AllJoined, Clog Done]
                 @ map Cout (foldl write_color [] (image_buffer (foldl step ?st0 (map snd tr))))"
    using render_run [OF run W'] by blast
  have out: "run = [Cout (Header (image_width cam0) ?H)]
                 @ map (\<lambda>(t, e). Worker t e) tr @ [AllJoined, Clog Done]
                 @ map Cout (foldl write_color [] (image_buffer (foldl step ?st0 (map snd tr))))"
    using r unfolding w .
  have init: "scanlines_remaining ?st0 = ?H" by (simp add: initial_shared_def)
  note rows = run_dec_count [OF H tr]
  have after: "scanlines_remaining (foldl step ?st0 evs) = ?H - int (length (dec_rows evs))" for evs
    using counter_after [of ?st0 evs] init by simp
  have pre_le: "int (length (dec_rows (map snd (take n tr)))) \<le> ?H" for n
    using dec_rows_take_length [of n "map snd tr"] rows(3) by (simp add: take_map)
  have mono: "length (dec_rows (map snd (take n tr))) \<le> length (dec_rows (map snd (take (Suc n) tr)))" for n
    using dec_rows_take_Suc [of n "map snd tr"] by (simp add: take_map)
  have steps: "scanlines_remaining (foldl step ?st0 (map snd (take n tr)))
                = ?H - int (length (dec_rows (map snd (take n tr)))) \<and>
              0 \<le> scanlines_remaining (foldl step ?st0 (map snd (take n tr))) \<and>
              scanlines_remaining (foldl step ?st0 (map snd (take (Suc n) tr)))
              \<le> scanlines_remaining (foldl step ?st0 (map snd (take n tr)))" for n
    using pre_le [of n] mono [of n] by (simp add: after)
  have final: "scanlines_remaining (foldl step ?st0 (map snd tr)) = 0"
    using rows(3) by (simp add: after)
  have who: "t < unat ?T \<and> j \<in> thread_rows ?H ?T (of_nat t)"
    if "(t, Decrement j) \<in> set tr" for t j
    using run_decrement_worker [OF tr that] .
  have first: "(t, Decrement (k div image_width cam0)) \<in> set pre"
    if "tr = pre @ (t, Store k c) # post" for pre t k c post
    using run_dec_first [OF tr that] unfolding w .
  have blocks: "\<exists>\<sigma>.
            (fst (thread_range ?H ?T (of_nat t)) < snd (thread_range ?H ?T (of_nat t)) \<longrightarrow>
             \<sigma> (fst (thread_range ?H ?T (of_nat t))) = seeds t) \<and>
            (\<forall>j. fst (thread_range ?H ?T (of_nat t)) \<le> j \<and>
                 j + 1 < snd (thread_range ?H ?T (of_nat t)) \<longrightarrow>
               \<sigma> (j + 1) = snd (column_loop ?cam rnd world j 0 (\<sigma> j))) \<and>
            map snd (filter (\<lambda>e. fst e = t) tr) =
              concat (map (\<lambda>j. Decrement j # fst (column_loop ?cam rnd world j 0 (\<sigma> j)))
                [fst (thread_range ?H ?T (of_nat t)) .. snd (thread_range ?H ?T (of_nat t)) - 1]) \<and>
            (\<forall>j. dec_rows (fst (column_loop ?cam rnd world j 0 (\<sigma> j))) = [] \<and>
                 store_indices (fst (column_loop ?cam rnd world j 0 (\<sigma> j))) =
                   [j * image_width cam0 .. j * image_width cam0 + image_width cam0 - 1])"
    if t: "t < unat ?T" for t
  proof -
    let ?a = "fst (thread_range ?H ?T (of_nat t))"
    let ?b = "snd (thread_range ?H ?T (of_nat t))"
    obtain \<sigma> where s1: "?a < ?b \<longrightarrow> \<sigma> ?a = seeds t"
      and s2: "\<forall>j. ?a \<le> j \<and> j + 1 < ?b \<longrightarrow>
                 \<sigma> (j + 1) = snd (column_loop ?cam rnd world j 0 (\<sigma> j))"
      and s3: "fst (render_lines ?cam rnd world ?a ?b (seeds t)) =
                 concat (map (\<lambda>j. Decrement j # fst (column_loop ?cam rnd world j 0 (\<sigma> j)))
                   [?a .. ?b - 1])"
      using render_lines_rows [where j = ?a and end_line = ?b and s = "seeds t" and cam = ?cam
            and rnd = rnd and world = world]
      by blast
    have s3': "map snd (filter (\<lambda>e. fst e = t) tr) =
                 concat (map (\<lambda>j. Decrement j # fst (column_loop ?cam rnd world j 0 (\<sigma> j)))
                   [?a .. ?b - 1])"
      using run_worker_projection [OF tr t] s3 by simp
    have s4: "\<forall>j. dec_rows (fst (column_loop ?cam rnd world j 0 (\<sigma> j))) = [] \<and>
                 store_indices (fst (column_loop ?cam rnd world j 0 (\<sigma> j))) =
                   [j * image_width cam0 .. j * image_width cam0 + image_width cam0 - 1]"
      using column_loop_projections [of ?cam rnd world _ 0] by (simp add: w)
    show ?thesis
      by (rule exI [of _ \<sigma>]) (intro conjI s1 s2 s3' s4)
  qed
  have all: "run = [Cout (Header (image_width cam0) ?H)]
               @ map (\<lambda>(t, e). Worker t e) tr @ [AllJoined, Clog Done]
               @ map Cout (foldl write_color [] (image_buffer (foldl step ?st0 (map snd tr)))) \<and>
         scanlines_remaining ?st0 = ?H \<and>
         distinct (dec_rows (map snd tr)) \<and>
         set (dec_rows (map snd tr)) = {0 ..< ?H} \<and>
         (\<forall>n. scanlines_remaining (foldl step ?st0 (map snd (take n tr)))
                = ?H - int (length (dec_rows (map snd (take n tr)))) \<and>
              0 \<le> scanlines_remaining (foldl step ?st0 (map snd (take n tr))) \<and>
              scanlines_remaining (foldl step ?st0 (map snd (take (Suc n) tr)))
              \<le> scanlines_remaining (foldl step ?st0 (map snd (take n tr)))) \<and>
         scanlines_remaining (foldl step ?st0 (map snd tr)) = 0 \<and>
         (\<forall>t j. (t, Decrement j) \<in> set tr \<longrightarrow>
            t < unat ?T \<and> j \<in> thread_rows ?H ?T (of_nat t)) \<and>
         (\<forall>pre t k c post. tr = pre @ (t, Store k c) # post \<longrightarrow>
            (t, Decrement (k div image_width cam0)) \<in> set pre)"
    using out init rows(1,2) steps final who first by blast
  show ?thesis
    by (rule bexI [OF _ tr]) (use all blocks in blast)
qed

theorem counter_decrements_witness:
  "[Cout (Header 2 2), Worker 1 (Decrement 1), Worker 0 (Decrement 0),
    Worker 0 (Store 0 (Vec3 0 0 0)), Worker 1 (Store 2 (Vec3 0 0 0)),
    Worker 0 (Store 1 (Vec3 0 0 0)), Worker 1 (Store 3 (Vec3 0 0 0)), AllJoined, Clog Done,
    Cout (PixelLine 0 0 0), Cout (PixelLine 0 0 0), Cout (PixelLine 0 0 0), Cout (PixelLine 0 0 0)]
     \<in> render square_camera demo_random demo_world 2 (\<lambda>t. 0) \<and>
   0 \<le> image_width square_camera \<and>
   image_width square_camera * image_height (initialize square_camera) < 2 ^ 31 \<and>
   scanlines_remaining (initial_shared (initialize square_camera)) = 2 \<and>
   dec_rows (map snd [(1 :: nat, Decrement 1), (0, Decrement 0), (0, Store 0 (Vec3 0 0 0)),
                      (1, Store 2 (Vec3 0 0 0)), (0, Store 1 (Vec3 0 0 0)),
                      (1, Store 3 (Vec3 0 0 0))]) = [1, 0] \<and>
   scanlines_remaining
     (foldl step (initial_shared (initialize square_camera))
        (map snd (take 1 [(1 :: nat, Decrement 1), (0, Decrement 0), (0, Store 0 (Vec3 0 0 0)),
                      (1, Store 2 (Vec3 0 0 0)), (0, Store 1 (Vec3 0 0 0)),
                      (1, Store 3 (Vec3 0 0 0))]))) = 1 \<and>
   scanlines_remaining
     (foldl step (initial_shared (initialize square_camera))
        (map snd [(1 :: nat, Decrement 1), (0, Decrement 0), (0, Store 0 (Vec3 0 0 0)),
                      (1, Store 2 (Vec3 0 0 0)), (0, Store 1 (Vec3 0 0 0)),
                      (1, Store 3 (Vec3 0 0 0))])) = 0 \<and>
   (\<exists>\<sigma>. \<sigma> (1 :: int) = (0 :: nat) \<and>
      map snd (filter (\<lambda>e. fst e = 1)
        [(1 :: nat, Decrement 1), (0, Decrement 0), (0, Store 0 (Vec3 0 0 0)),
         (1, Store 2 (Vec3 0 0 0)), (0, Store 1 (Vec3 0 0 0)), (1, Store 3 (Vec3 0 0 0))]) =
        Decrement 1 # fst (column_loop (initialize square_camera) demo_random demo_world 1 0 (\<sigma> 1)) \<and>
      store_indices (fst (column_loop (initialize square_camera) demo_random demo_world 1 0 (\<sigma> 1)))
        = [2, 3])"
proof -
  let ?tr0 = "[(1 :: nat, Decrement 1), (0, Decrement 0), (0, Store 0 (Vec3 0 0 0)),
               (1, Store 2 (Vec3 0 0 0)), (0, Store 1 (Vec3 0 0 0)), (1, Store 3 (Vec3 0 0 0))]"
  let ?cam = "initialize square_camera"
  let ?st0 = "initial_shared ?cam"
  have wd: "image_width square_camera = 2" by (simp add: square_camera_def demo_camera_def)
  have w: "0 \<le> image_width square_camera" by (simp add: wd)
  have wh: "image_width square_camera * image_height (initialize square_camera) < 2 ^ 31"
    by (simp add: wd square_initialize)
  obtain tr where
    r: "[Cout (Header 2 2), Worker 1 (Decrement 1), Worker 0 (Decrement 0),
         Worker 0 (Store 0 (Vec3 0 0 0)), Worker 1 (Store 2 (Vec3 0 0 0)),
         Worker 0 (Store 1 (Vec3 0 0 0)), Worker 1 (Store 3 (Vec3 0 0 0)), AllJoined, Clog Done,
         Cout (PixelLine 0 0 0), Cout (PixelLine 0 0 0), Cout (PixelLine 0 0 0),
         Cout (PixelLine 0 0 0)] =
        [Cout (Header (image_width square_camera) (image_height ?cam))]
        @ map (\<lambda>(t, e). Worker t e) tr @ [AllJoined, Clog Done]
        @ map Cout (foldl write_color [] (image_buffer (foldl step ?st0 (map snd tr))))"
    and i: "scanlines_remaining ?st0 = image_height ?cam"
    and n: "\<forall>n. scanlines_remaining (foldl step ?st0 (map snd (take n tr)))
                = image_height ?cam - int (length (dec_rows (map snd (take n tr)))) \<and>
              0 \<le> scanlines_remaining (foldl step ?st0 (map snd (take n tr))) \<and>
              scanlines_remaining (foldl step ?st0 (map snd (take (Suc n) tr)))
              \<le> scanlines_remaining (foldl step ?st0 (map snd (take n tr)))"
    and f: "scanlines_remaining (foldl step ?st0 (map snd tr)) = 0"
    and b: "\<forall>t < unat (num_threads 2). \<exists>\<sigma>.
            (fst (thread_range (image_height ?cam) (num_threads 2) (of_nat t))
               < snd (thread_range (image_height ?cam) (num_threads 2) (of_nat t)) \<longrightarrow>
             \<sigma> (fst (thread_range (image_height ?cam) (num_threads 2) (of_nat t)))
               = (0 :: nat)) \<and>
            (\<forall>j. fst (thread_range (image_height ?cam) (num_threads 2) (of_nat t)) \<le> j \<and>
                 j + 1 < snd (thread_range (image_height ?cam) (num_threads 2) (of_nat t)) \<longrightarrow>
               \<sigma> (j + 1) = snd (column_loop ?cam demo_random demo_world j 0 (\<sigma> j))) \<and>
            map snd (filter (\<lambda>e. fst e = t) tr) =
              concat (map (\<lambda>j. Decrement j # fst (column_loop ?cam demo_random demo_world j 0 (\<sigma> j)))
                [fst (thread_range (image_height ?cam) (num_threads 2) (of_nat t)) ..
                 snd (thread_range (image_height ?cam) (num_threads 2) (of_nat t)) - 1]) \<and>
            (\<forall>j. dec_rows (fst (column_loop ?cam demo_random demo_world j 0 (\<sigma> j))) = [] \<and>
                 store_indices (fst (column_loop ?cam demo_random demo_world j 0 (\<sigma> j))) =
                   [j * image_width square_camera ..
                    j * image_width square_camera + image_width square_camera - 1])"
    using counter_decrements [OF square_render w wh] by blast
  have "map (\<lambda>(t, e). Worker t e) ?tr0 @ AllJoined #
          [Clog Done, Cout (PixelLine 0 0 0), Cout (PixelLine 0 0 0), Cout (PixelLine 0 0 0),
           Cout (PixelLine 0 0 0)] =
        map (\<lambda>(t, e). Worker t e) tr @ AllJoined # Clog Done #
          map Cout (foldl write_color [] (image_buffer (foldl step ?st0 (map snd tr))))"
    using r by simp
  then have tr: "?tr0 = tr" by (rule worker_prefix_unique)
  have s0: "scanlines_remaining ?st0 = 2" using i by (simp add: square_initialize)
  have s1: "scanlines_remaining (foldl step ?st0 (map snd (take 1 ?tr0))) = 1"
    unfolding tr n [rule_format, of 1, THEN conjunct1]
    unfolding tr [symmetric] by (simp add: square_initialize dec_rows_simps)
  have s2: "scanlines_remaining (foldl step ?st0 (map snd ?tr0)) = 0"
    unfolding tr by (rule f)
  have d: "dec_rows (map snd ?tr0) = [1, 0]" by (simp add: dec_rows_simps)
  have one: "(1 :: nat) < unat (num_threads 2)" by (simp add: square_threads)
  obtain \<sigma> where
    a1: "fst (thread_range (image_height ?cam) (num_threads 2) (of_nat 1))
               < snd (thread_range (image_height ?cam) (num_threads 2) (of_nat 1)) \<longrightarrow>
             \<sigma> (fst (thread_range (image_height ?cam) (num_threads 2) (of_nat 1))) = (0 :: nat)"
    and a2: "map snd (filter (\<lambda>e. fst e = 1) tr) =
              concat (map (\<lambda>j. Decrement j # fst (column_loop ?cam demo_random demo_world j 0 (\<sigma> j)))
                [fst (thread_range (image_height ?cam) (num_threads 2) (of_nat 1)) ..
                 snd (thread_range (image_height ?cam) (num_threads 2) (of_nat 1)) - 1])"
    and a3: "\<forall>j. dec_rows (fst (column_loop ?cam demo_random demo_world j 0 (\<sigma> j))) = [] \<and>
                 store_indices (fst (column_loop ?cam demo_random demo_world j 0 (\<sigma> j))) =
                   [j * image_width square_camera ..
                    j * image_width square_camera + image_width square_camera - 1]"
    using b [rule_format, OF one] by blast
  have u: "[1 :: int .. 2 - 1] = [1]" by (simp add: upto_rec1)
  have u2: "[1 * 2 :: int .. 1 * 2 + 2 - 1] = [2, 3]" by (simp add: upto_rec1)
  have b1: "\<sigma> (1 :: int) = (0 :: nat)" using a1 unfolding square_threads by simp
  have b2: "map snd (filter (\<lambda>e. fst e = 1) ?tr0) =
              Decrement 1 # fst (column_loop ?cam demo_random demo_world 1 0 (\<sigma> 1))"
    using a2 unfolding square_threads tr [symmetric] fst_conv snd_conv u by simp
  have b3: "store_indices (fst (column_loop ?cam demo_random demo_world 1 0 (\<sigma> 1))) = [2, 3]"
    using a3 [rule_format, of 1, THEN conjunct2] unfolding wd u2 .
  have ex: "\<exists>\<sigma>. \<sigma> (1 :: int) = (0 :: nat) \<and>
      map snd (filter (\<lambda>e. fst e = 1) ?tr0) =
        Decrement 1 # fst (column_loop ?cam demo_random demo_world 1 0 (\<sigma> 1)) \<and>
      store_indices (fst (column_loop ?cam demo_random demo_world 1 0 (\<sigma> 1))) = [2, 3]"
    by (rule exI [of _ \<sigma>]) (intro conjI b1 b2 b3)
  show ?thesis
    by (intro conjI square_render w wh s0 s1 s2 d ex)
qed

text \<open>
  C7 as the spec states it fails: the decrement for a row does not wait for the row's
  pixels. In the run of the small image, the worker decrements for row 0 and stores the
  pixels of row 0 afterwards.
\<close>

theorem counter_decrements_counterexample:
  "\<not> (\<forall>tr \<in> interleavings (worker_traces (initialize (demo_camera 0)) demo_random demo_world
                              (num_threads 1) (\<lambda>t. 0)).
        \<forall>pre t j post k c.
          tr = pre @ (t, Decrement j) # post \<and>
          k div image_width (initialize (demo_camera 0)) = j \<longrightarrow>
            (t, Store k c) \<notin> set post)"
proof
  assume a: "\<forall>tr \<in> interleavings (worker_traces (initialize (demo_camera 0)) demo_random demo_world
                              (num_threads 1) (\<lambda>t. 0)).
        \<forall>pre t j post k c.
          tr = pre @ (t, Decrement j) # post \<and>
          k div image_width (initialize (demo_camera 0)) = j \<longrightarrow>
            (t, Store k c) \<notin> set post"
  have "(0 :: nat, Store 0 (Vec3 0 0 0)) \<notin>
          set [(0, Store 0 (Vec3 0 0 0)), (0, Store 1 (Vec3 0 0 0))]"
    using a [unfolded demo_interleavings, rule_format,
        of "[(0, Decrement 0), (0, Store 0 (Vec3 0 0 0)), (0, Store 1 (Vec3 0 0 0))]"
           "[]" 0 0 "[(0, Store 0 (Vec3 0 0 0)), (0, Store 1 (Vec3 0 0 0))]" 0 "Vec3 0 0 0"]
    by (simp add: demo_initialize)
  then show False by simp
qed

text \<open>
  C8, as the code has it. \<^verbatim>\<open>render\<close> writes the header to standard output first, before
  any thread is created. Every other write to standard output is a pixel line, written
  after all workers have been joined, and no worker acts after it.
\<close>

theorem output_order:
  assumes "run \<in> render cam0 rnd world hw seeds"
  shows "(\<exists>rest. run = Cout (Header (image_width (initialize cam0))
                                      (image_height (initialize cam0))) # rest) \<and>
         (\<forall>pre item post. run = pre @ Cout item # post \<longrightarrow>
            (pre = [] \<and> item = Header (image_width (initialize cam0))
                                       (image_height (initialize cam0))) \<or>
            (AllJoined \<in> set pre \<and> (\<exists>a b c. item = PixelLine a b c) \<and>
             (\<forall>t e. Worker t e \<notin> set post)))"
proof (cases "image_width (initialize cam0) * image_height (initialize cam0) < 0")
  case True
  let ?h = "Header (image_width (initialize cam0)) (image_height (initialize cam0))"
  have run: "run = [Cout ?h, LengthError]"
    using assms True by (simp add: render_def Let_def)
  have "pre = [] \<and> item = ?h" if "run = pre @ Cout item # post" for pre item post
    using that run by (auto simp: Cons_eq_append_conv)
  then show ?thesis using run by blast
next
  case False
  let ?h = "Header (image_width (initialize cam0)) (image_height (initialize cam0))"
  from assms False obtain tr where
    run: "run = Cout ?h # map (\<lambda>(t, e). Worker t e) tr @ [AllJoined, Clog Done]
                @ map Cout (foldl write_color []
                     (image_buffer (foldl step (initial_shared (initialize cam0)) (map snd tr))))"
    by (auto simp: render_def Let_def)
  let ?ls = "map Cout (foldl write_color []
                     (image_buffer (foldl step (initial_shared (initialize cam0)) (map snd tr))))"
  have ls: "\<forall>x \<in> set ?ls. \<exists>a b c. x = Cout (PixelLine a b c)"
    using pixel_lines by blast
  have "(pre = [] \<and> item = ?h) \<or>
        (AllJoined \<in> set pre \<and> (\<exists>a b c. item = PixelLine a b c) \<and> (\<forall>t e. Worker t e \<notin> set post))"
    if "run = pre @ Cout item # post" for pre item post
    using run_shape [OF run ls that] by simp
  then show ?thesis using run by blast
qed

theorem output_order_witness:
  "[Cout (Header 2 1), Worker 0 (Decrement 0), Worker 0 (Store 0 (Vec3 0 0 0)),
    Worker 0 (Store 1 (Vec3 0 0 0)), AllJoined, Clog Done,
    Cout (PixelLine 0 0 0), Cout (PixelLine 0 0 0)]
     \<in> render (demo_camera 0) demo_random demo_world 1 (\<lambda>t. 0) \<and>
   image_width (initialize (demo_camera 0)) = 2 \<and>
   image_height (initialize (demo_camera 0)) = 1 \<and>
   AllJoined \<in> set [Cout (Header 2 1), Worker 0 (Decrement 0), Worker 0 (Store 0 (Vec3 0 0 0)),
                     Worker 0 (Store 1 (Vec3 0 0 0)), AllJoined, Clog Done]"
proof -
  have m: "[Cout (Header 2 1), Worker 0 (Decrement 0), Worker 0 (Store 0 (Vec3 0 0 0)),
    Worker 0 (Store 1 (Vec3 0 0 0)), AllJoined, Clog Done,
    Cout (PixelLine 0 0 0), Cout (PixelLine 0 0 0)]
     \<in> render (demo_camera 0) demo_random demo_world 1 (\<lambda>t. 0)"
    by (simp add: demo_render)
  note t = output_order [OF m, THEN conjunct2, rule_format,
      of "[Cout (Header 2 1), Worker 0 (Decrement 0), Worker 0 (Store 0 (Vec3 0 0 0)),
           Worker 0 (Store 1 (Vec3 0 0 0)), AllJoined, Clog Done]" "PixelLine 0 0 0"
         "[Cout (PixelLine 0 0 0)]"]
  have "AllJoined \<in> set [Cout (Header 2 1), Worker 0 (Decrement 0), Worker 0 (Store 0 (Vec3 0 0 0)),
                          Worker 0 (Store 1 (Vec3 0 0 0)), AllJoined, Clog Done]"
    using t by simp
  then show ?thesis using m by (simp add: demo_initialize)
qed

text \<open>
  C8 as the spec states it fails: not every write to standard output follows the join.
  The header of the small image is written before the worker's first action.
\<close>

theorem output_order_counterexample:
  "\<not> (\<forall>run \<in> render (demo_camera 0) demo_random demo_world 1 (\<lambda>t. 0).
        \<forall>pre item post. run = pre @ Cout item # post \<longrightarrow> AllJoined \<in> set pre)"
proof
  assume a: "\<forall>run \<in> render (demo_camera 0) demo_random demo_world 1 (\<lambda>t. 0).
        \<forall>pre item post. run = pre @ Cout item # post \<longrightarrow> AllJoined \<in> set pre"
  have "AllJoined \<in> set ([] :: render_event list)"
    using a [unfolded demo_render, rule_format,
        of "[Cout (Header 2 1), Worker 0 (Decrement 0), Worker 0 (Store 0 (Vec3 0 0 0)),
             Worker 0 (Store 1 (Vec3 0 0 0)), AllJoined, Clog Done,
             Cout (PixelLine 0 0 0), Cout (PixelLine 0 0 0)]" "[]" "Header 2 1"]
    by simp
  then show False by simp
qed

text \<open>
  C10. For a run of \<^verbatim>\<open>render\<close> with a non-negative width and
  \<open>image_width * image_height\<close> within the range of \<^verbatim>\<open>int\<close> (the product is computed in
  \<^verbatim>\<open>int\<close> for the length of the buffer, and so is every index): the pixel buffer has
  \<open>image_width * image_height\<close> elements; the stores of the workers go to each index of
  the buffer exactly once; a store writes, at index \<open>j * image_width + i\<close> for a column
  \<open>i\<close> and a row \<open>j\<close> of the image, the scaled sample sum of pixel \<open>(i, j)\<close>, the index
  is within the buffer, and the buffer holds that colour there when the workers are done;
  and after the join the run writes one \<^verbatim>\<open>write_color\<close> line per element of the buffer,
  in increasing index order, and nothing else.
\<close>

theorem buffer_row_major:
  assumes run: "run \<in> render cam0 rnd world hw seeds"
    and W: "0 \<le> image_width cam0"
    and WH: "image_width cam0 * image_height (initialize cam0) < 2 ^ 31"
  shows "\<exists>tr \<in> interleavings
                  (worker_traces (initialize cam0) rnd world (num_threads hw) seeds).
           length (image_buffer (initial_shared (initialize cam0))) =
             nat (image_width cam0 * image_height (initialize cam0)) \<and>
           length (image_buffer (foldl step (initial_shared (initialize cam0)) (map snd tr))) =
             nat (image_width cam0 * image_height (initialize cam0)) \<and>
           distinct (store_indices (map snd tr)) \<and>
           set (store_indices (map snd tr)) =
             {0 ..< image_width cam0 * image_height (initialize cam0)} \<and>
           (\<forall>t k c. (t, Store k c) \<in> set tr \<longrightarrow>
              (\<exists>i j s'. 0 \<le> i \<and> i < image_width cam0 \<and>
                 0 \<le> j \<and> j < image_height (initialize cam0) \<and>
                 k = j * image_width cam0 + i \<and>
                 c = smul (pixel_samples_scale (initialize cam0))
                       (fst (fst (sample_loop (initialize cam0) rnd world i j 0 (Vec3 0 0 0) s')))) \<and>
              0 \<le> k \<and> k < image_width cam0 * image_height (initialize cam0) \<and>
              image_buffer (foldl step (initial_shared (initialize cam0)) (map snd tr)) ! nat k = c) \<and>
           run = [Cout (Header (image_width cam0) (image_height (initialize cam0)))]
                 @ map (\<lambda>(t, e). Worker t e) tr @ [AllJoined, Clog Done]
                 @ map Cout (concat (map (write_color [])
                     (image_buffer (foldl step (initial_shared (initialize cam0)) (map snd tr)))))"
proof -
  let ?cam = "initialize cam0"
  let ?st0 = "initial_shared ?cam"
  have w: "image_width ?cam = image_width cam0" by (simp add: initialize_keeps)
  have W': "0 \<le> image_width ?cam" using W by (simp add: w)
  have H: "image_height ?cam < 2 ^ 31" using W WH by (rule height_of_product)
  obtain tr where tr: "tr \<in> interleavings (worker_traces ?cam rnd world (num_threads hw) seeds)"
    and r: "run = [Cout (Header (image_width ?cam) (image_height ?cam))]
                 @ map (\<lambda>(t, e). Worker t e) tr @ [AllJoined, Clog Done]
                 @ map Cout (foldl write_color [] (image_buffer (foldl step ?st0 (map snd tr))))"
    using render_run [OF run W'] by blast
  let ?buf = "image_buffer (foldl step ?st0 (map snd tr))"
  have len0: "length (image_buffer ?st0) = nat (image_width cam0 * image_height ?cam)"
    by (simp add: initial_shared_def w)
  have len: "length ?buf = nat (image_width cam0 * image_height ?cam)"
    by (simp add: buffer_length len0)
  have ix: "distinct (store_indices (map snd tr)) \<and>
            set (store_indices (map snd tr)) = {0 ..< image_width cam0 * image_height ?cam}"
    using run_store_indices [OF W' initialize_height H num_threads_nonzero tr] by (simp add: w)
  have st: "(\<exists>i j s'. 0 \<le> i \<and> i < image_width cam0 \<and> 0 \<le> j \<and> j < image_height ?cam \<and>
                 k = j * image_width cam0 + i \<and>
                 c = smul (pixel_samples_scale ?cam)
                       (fst (fst (sample_loop ?cam rnd world i j 0 (Vec3 0 0 0) s')))) \<and>
            0 \<le> k \<and> k < image_width cam0 * image_height ?cam \<and>
            ?buf ! nat k = c"
    if ev: "(t, Store k c) \<in> set tr" for t k c
  proof -
    have form: "\<exists>i j s'. 0 \<le> i \<and> i < image_width cam0 \<and> 0 \<le> j \<and> j < image_height ?cam \<and>
                 k = j * image_width cam0 + i \<and>
                 c = smul (pixel_samples_scale ?cam)
                       (fst (fst (sample_loop ?cam rnd world i j 0 (Vec3 0 0 0) s')))"
      using run_store_event [OF tr initialize_height H num_threads_nonzero ev] by (simp add: w)
    have "Store k c \<in> set (map snd tr)" using ev by force
    then have "k \<in> set (store_indices (map snd tr))" by (rule store_in_indices)
    then have k: "0 \<le> k" "k < int (length (image_buffer ?st0))"
        and k': "k < image_width cam0 * image_height ?cam"
      using ix len0 by auto
    have "?buf ! nat k = c" using ix ev k by (intro run_buffer_at) simp_all
    then show ?thesis using form k(1) k' by blast
  qed
  have out: "run = [Cout (Header (image_width cam0) (image_height ?cam))]
                 @ map (\<lambda>(t, e). Worker t e) tr @ [AllJoined, Clog Done]
                 @ map Cout (concat (map (write_color []) ?buf))"
    using r by (simp add: foldl_write_color w)
  show ?thesis
    using tr len0 len ix st out by blast
qed


theorem buffer_row_major_witness:
  "[Cout (Header 2 2), Worker 1 (Decrement 1), Worker 0 (Decrement 0),
    Worker 0 (Store 0 (Vec3 0 0 0)), Worker 1 (Store 2 (Vec3 0 0 0)),
    Worker 0 (Store 1 (Vec3 0 0 0)), Worker 1 (Store 3 (Vec3 0 0 0)), AllJoined, Clog Done,
    Cout (PixelLine 0 0 0), Cout (PixelLine 0 0 0), Cout (PixelLine 0 0 0), Cout (PixelLine 0 0 0)]
     \<in> render square_camera demo_random demo_world 2 (\<lambda>t. 0) \<and>
   0 \<le> image_width square_camera \<and>
   image_width square_camera * image_height (initialize square_camera) < 2 ^ 31 \<and>
   length (image_buffer (initial_shared (initialize square_camera))) = 4 \<and>
   store_indices (map snd [(1 :: nat, Decrement 1), (0, Decrement 0), (0, Store 0 (Vec3 0 0 0)),
                           (1, Store 2 (Vec3 0 0 0)), (0, Store 1 (Vec3 0 0 0)),
                           (1, Store 3 (Vec3 0 0 0))]) = [0, 2, 1, 3] \<and>
   set (store_indices (map snd [(1 :: nat, Decrement 1), (0, Decrement 0),
                           (0, Store 0 (Vec3 0 0 0)), (1, Store 2 (Vec3 0 0 0)),
                           (0, Store 1 (Vec3 0 0 0)), (1, Store 3 (Vec3 0 0 0))])) = {0 ..< 4} \<and>
   (\<exists>s'. (3 :: int) = 1 * image_width square_camera + 1 \<and>
      Vec3 0 0 0 = smul (pixel_samples_scale (initialize square_camera))
        (fst (fst (sample_loop (initialize square_camera) demo_random demo_world 1 1 0
                     (Vec3 0 0 0) (s' :: nat))))) \<and>
   image_buffer (foldl step (initial_shared (initialize square_camera))
     (map snd [(1 :: nat, Decrement 1), (0, Decrement 0), (0, Store 0 (Vec3 0 0 0)),
               (1, Store 2 (Vec3 0 0 0)), (0, Store 1 (Vec3 0 0 0)),
               (1, Store 3 (Vec3 0 0 0))])) ! nat 3 = Vec3 0 0 0"
proof -
  let ?tr0 = "[(1 :: nat, Decrement 1), (0, Decrement 0), (0, Store 0 (Vec3 0 0 0)),
               (1, Store 2 (Vec3 0 0 0)), (0, Store 1 (Vec3 0 0 0)), (1, Store 3 (Vec3 0 0 0))]"
  let ?cam = "initialize square_camera"
  let ?st0 = "initial_shared ?cam"
  have wd: "image_width square_camera = 2" by (simp add: square_camera_def demo_camera_def)
  have w: "0 \<le> image_width square_camera" by (simp add: wd)
  have wh: "image_width square_camera * image_height (initialize square_camera) < 2 ^ 31"
    by (simp add: wd square_initialize)
  obtain tr where
    l: "length (image_buffer ?st0) = nat (image_width square_camera * image_height ?cam)"
    and s: "set (store_indices (map snd tr)) =
              {0 ..< image_width square_camera * image_height ?cam}"
    and e: "\<forall>t k c. (t, Store k c) \<in> set tr \<longrightarrow>
              (\<exists>i j s'. 0 \<le> i \<and> i < image_width square_camera \<and>
                 0 \<le> j \<and> j < image_height ?cam \<and>
                 k = j * image_width square_camera + i \<and>
                 c = smul (pixel_samples_scale ?cam)
                       (fst (fst (sample_loop ?cam demo_random demo_world i j 0 (Vec3 0 0 0)
                                    (s' :: nat))))) \<and>
              0 \<le> k \<and> k < image_width square_camera * image_height ?cam \<and>
              image_buffer (foldl step ?st0 (map snd tr)) ! nat k = c"
    and r: "[Cout (Header 2 2), Worker 1 (Decrement 1), Worker 0 (Decrement 0),
         Worker 0 (Store 0 (Vec3 0 0 0)), Worker 1 (Store 2 (Vec3 0 0 0)),
         Worker 0 (Store 1 (Vec3 0 0 0)), Worker 1 (Store 3 (Vec3 0 0 0)), AllJoined, Clog Done,
         Cout (PixelLine 0 0 0), Cout (PixelLine 0 0 0), Cout (PixelLine 0 0 0),
         Cout (PixelLine 0 0 0)] =
        [Cout (Header (image_width square_camera) (image_height ?cam))]
        @ map (\<lambda>(t, e). Worker t e) tr @ [AllJoined, Clog Done]
        @ map Cout (concat (map (write_color [])
            (image_buffer (foldl step ?st0 (map snd tr)))))"
    using buffer_row_major [OF square_render w wh] by blast
  have "map (\<lambda>(t, e). Worker t e) ?tr0 @ AllJoined #
          [Clog Done, Cout (PixelLine 0 0 0), Cout (PixelLine 0 0 0), Cout (PixelLine 0 0 0),
           Cout (PixelLine 0 0 0)] =
        map (\<lambda>(t, e). Worker t e) tr @ AllJoined # Clog Done #
          map Cout (concat (map (write_color [])
            (image_buffer (foldl step ?st0 (map snd tr)))))"
    using r by simp
  then have tr: "?tr0 = tr" by (rule worker_prefix_unique)
  have c1: "length (image_buffer ?st0) = 4" using l by (simp add: wd square_initialize)
  have c2: "store_indices (map snd ?tr0) = [0, 2, 1, 3]" by (simp add: store_indices_simps)
  have c3: "set (store_indices (map snd ?tr0)) = {0 ..< 4}"
    using s unfolding tr [symmetric] wd square_initialize by simp
  have ev: "(1, Store 3 (Vec3 0 0 0)) \<in> set tr" unfolding tr [symmetric] by simp
  note e3 = e [rule_format, OF ev]
  obtain i j s' where ij: "0 \<le> i" "i < image_width square_camera" "0 \<le> j"
      "3 = j * image_width square_camera + i"
    and c: "Vec3 0 0 0 = smul (pixel_samples_scale ?cam)
              (fst (fst (sample_loop ?cam demo_random demo_world i j 0 (Vec3 0 0 0) (s' :: nat))))"
    using e3 [THEN conjunct1] by blast
  have "i = 1 \<and> j = 1" using ij unfolding wd by presburger
  then have c4: "\<exists>s'. (3 :: int) = 1 * image_width square_camera + 1 \<and>
      Vec3 0 0 0 = smul (pixel_samples_scale ?cam)
        (fst (fst (sample_loop ?cam demo_random demo_world 1 1 0 (Vec3 0 0 0) (s' :: nat))))"
    using c wd by auto
  have c5: "image_buffer (foldl step ?st0 (map snd ?tr0)) ! nat 3 = Vec3 0 0 0"
    unfolding tr by (rule e3 [THEN conjunct2, THEN conjunct2, THEN conjunct2])
  show ?thesis
    by (intro conjI square_render w wh c1 c2 c3 c4 c5)
qed

end
